theory Spec2Isabelle
  imports Complex_Main "HOL-Library.Word" "HOL-Library.Multiset"
begin

unbundle bit_operations_syntax

section \<open>CRC masking (util/crc32c.h)\<close>

type_synonym u8 = "8 word"
type_synonym u32 = "32 word"
type_synonym u64 = "64 word"

definition kMaskDelta :: u32 where
  "kMaskDelta = 0xa282ead8"

text \<open>\<^verbatim>\<open>return ((crc >> 15) | (crc << 17)) + kMaskDelta;\<close>\<close>

definition Mask :: "u32 \<Rightarrow> u32" where
  "Mask crc = ((drop_bit 15 crc) OR (push_bit 17 crc)) + kMaskDelta"

text \<open>\<^verbatim>\<open>uint32_t rot = masked_crc - kMaskDelta; return ((rot >> 17) | (rot << 15));\<close>\<close>

definition Unmask :: "u32 \<Rightarrow> u32" where
  "Unmask masked_crc =
     (let rot = masked_crc - kMaskDelta in (drop_bit 17 rot) OR (push_bit 15 rot))"

text \<open>The rotation by 15 to the right that the specification names.\<close>

definition rot_right :: "u32 \<Rightarrow> nat \<Rightarrow> u32" where
  "rot_right c n = word_rotr n c"

section \<open>Arena (util/arena.h, util/arena.cc)\<close>

text \<open>A pointer into the arena names the block it points into (the index of the block in
  \<open>blocks\<close> (the member \<^verbatim>\<open>blocks_\<close>), one per \<^verbatim>\<open>new char[]\<close>) and the offset inside that block.\<close>

datatype ptr = Null | Ptr nat nat

record Arena =
  alloc_ptr :: ptr
  alloc_bytes_remaining :: u64
  blocks :: "u64 list"
  memory_usage :: u64

definition Arena_kBlockSize :: u64 where
  "Arena_kBlockSize = 4096"

text \<open>\<^verbatim>\<open>Arena::Arena() : alloc_ptr(nullptr), alloc_bytes_remaining(0), memory_usage(0)\<close>\<close>

definition Arena_new :: Arena where
  "Arena_new = \<lparr>alloc_ptr = Null, alloc_bytes_remaining = 0, blocks = [], memory_usage = 0\<rparr>"

text \<open>How a call can end without a result: a failed \<^verbatim>\<open>assert\<close>, arithmetic on a null
  bump pointer, or the exception \<^verbatim>\<open>std::bad_alloc\<close>, which no function of the arena
  catches.\<close>

datatype arena_error = AssertionFailed | NullPointerArithmetic | BadAlloc

text \<open>The free store, which the arena does not control: \<open>new_char_returns n\<close> tells
  whether \<^verbatim>\<open>new char[n]\<close> returns a block (it throws \<^verbatim>\<open>std::bad_alloc\<close> otherwise), and
  \<open>push_back_returns n\<close> whether \<^verbatim>\<open>push_back\<close> on a vector of \<open>n\<close> pointers
  returns (it throws when the vector cannot grow).\<close>

record FreeStore =
  new_char_returns :: "u64 \<Rightarrow> bool"
  push_back_returns :: "nat \<Rightarrow> bool"

text \<open>\<^verbatim>\<open>alloc_ptr += bytes\<close>; arithmetic on the null pointer has no meaning.\<close>

fun ptr_add :: "ptr \<Rightarrow> u64 \<Rightarrow> ptr option" where
  "ptr_add Null n = None"
| "ptr_add (Ptr b off) n = Some (Ptr b (off + unat n))"

text \<open>\<^verbatim>\<open>new char[block_bytes]\<close> is pushed onto \<open>blocks\<close>; the usage counter grows by the
  block and one pointer (8 bytes). An exception leaves the arena as it was.\<close>

definition AllocateNewBlock :: "FreeStore \<Rightarrow> Arena \<Rightarrow> u64 \<Rightarrow> arena_error + ptr \<times> Arena" where
  "AllocateNewBlock fs a block_bytes =
     (if \<not> new_char_returns fs block_bytes then Inl BadAlloc
      else if \<not> push_back_returns fs (length (blocks a)) then Inl BadAlloc
      else Inr (Ptr (length (blocks a)) 0,
                a\<lparr>blocks := blocks a @ [block_bytes],
                  memory_usage := memory_usage a + (block_bytes + 8)\<rparr>))"

definition AllocateFallback :: "FreeStore \<Rightarrow> Arena \<Rightarrow> u64 \<Rightarrow> arena_error + ptr \<times> Arena" where
  "AllocateFallback fs a bytes =
     (if bytes > Arena_kBlockSize div 4 then AllocateNewBlock fs a bytes
      else
        case AllocateNewBlock fs a Arena_kBlockSize of
          Inl e \<Rightarrow> Inl e
        | Inr (p, a1) \<Rightarrow>
            let a2 = a1\<lparr>alloc_ptr := p, alloc_bytes_remaining := Arena_kBlockSize\<rparr>;
                result = alloc_ptr a2
            in case ptr_add (alloc_ptr a2) bytes of
                 None \<Rightarrow> Inl NullPointerArithmetic
               | Some q \<Rightarrow>
                   Inr (result, a2\<lparr>alloc_ptr := q,
                                   alloc_bytes_remaining := alloc_bytes_remaining a2 - bytes\<rparr>))"

definition Allocate :: "FreeStore \<Rightarrow> Arena \<Rightarrow> u64 \<Rightarrow> arena_error + ptr \<times> Arena" where
  "Allocate fs a bytes =
     (if \<not> bytes > 0 then Inl AssertionFailed
      else if bytes \<le> alloc_bytes_remaining a then
        (let result = alloc_ptr a
         in case ptr_add (alloc_ptr a) bytes of
              None \<Rightarrow> Inl NullPointerArithmetic
            | Some q \<Rightarrow>
                Inr (result, a\<lparr>alloc_ptr := q,
                               alloc_bytes_remaining := alloc_bytes_remaining a - bytes\<rparr>))
      else AllocateFallback fs a bytes)"

text \<open>A client that allocates one size after the other, collecting the pointers.\<close>

fun Allocate_all :: "FreeStore \<Rightarrow> Arena \<Rightarrow> u64 list \<Rightarrow> arena_error + ptr list \<times> Arena" where
  "Allocate_all fs a [] = Inr ([], a)"
| "Allocate_all fs a (n # ns) =
     (case Allocate fs a n of
        Inl e \<Rightarrow> Inl e
      | Inr (p, a') \<Rightarrow>
          (case Allocate_all fs a' ns of
             Inl e \<Rightarrow> Inl e
           | Inr (ps, a'') \<Rightarrow> Inr (p # ps, a'')))"

text \<open>What the specification promises of a request: the result is the start of a block
  pushed by this very request, of exactly the requested size, and the bump pointer and
  the remaining-byte counter are as before.\<close>

definition own_exact_block :: "FreeStore \<Rightarrow> Arena \<Rightarrow> u64 \<Rightarrow> bool" where
  "own_exact_block fs a bytes =
     (case Allocate fs a bytes of
        Inl e \<Rightarrow> False
      | Inr (p, a') \<Rightarrow>
          p = Ptr (length (blocks a)) 0 \<and> blocks a' = blocks a @ [bytes] \<and>
          alloc_ptr a' = alloc_ptr a \<and>
          alloc_bytes_remaining a' = alloc_bytes_remaining a)"

text \<open>A free store that serves every block of at most \<open>2\<^sup>4\<^sup>0\<close> bytes, and an arena that
  has served four requests of 1000 bytes from its first block.\<close>

definition store_1T :: FreeStore where
  "store_1T = \<lparr>new_char_returns = (\<lambda>n. n \<le> 1099511627776), push_back_returns = (\<lambda>n. True)\<rparr>"

definition used_arena :: Arena where
  "used_arena =
     \<lparr>alloc_ptr = Ptr 0 4000, alloc_bytes_remaining = 96, blocks = [4096], memory_usage = 4104\<rparr>"

section \<open>Bloom filter policy (util/bloom.cc)\<close>

subsection \<open>The product \<^verbatim>\<open>bits_per_key * 0.69\<close> in double precision\<close>

text \<open>The literal \<^verbatim>\<open>0.69\<close> is the double \<open>6214967485771284 / 2 ^ 53\<close> (hexadecimal
  \<^verbatim>\<open>0x1.6147ae147ae14p-1\<close>). An \<^verbatim>\<open>int\<close> converts to double exactly, and the product
  of two doubles is the exact product rounded to 53 significant bits, to nearest and
  ties to even. All of it is computed here on the numerators over \<open>2 ^ 53\<close>.\<close>

definition double_069 :: nat where
  "double_069 = 6214967485771284"

fun bit_length :: "nat \<Rightarrow> nat" where
  "bit_length n = (if n = 0 then 0 else Suc (bit_length (n div 2)))"

declare bit_length.simps [simp del]

definition round_to_double :: "nat \<Rightarrow> nat" where
  "round_to_double n =
     (let e = bit_length n
      in if e \<le> 53 then n
         else
           let s = e - 53; q = n div 2 ^ s; r = n mod 2 ^ s; half = 2 ^ (s - 1)
           in (if r > half \<or> (r = half \<and> odd q) then q + 1 else q) * 2 ^ s)"

text \<open>\<^verbatim>\<open>static_cast<size_t>(bits_per_key * 0.69)\<close>: the product is truncated towards
  zero. A truncated value below zero has no \<^verbatim>\<open>size_t\<close>; the conversion is then
  undefined (\<open>None\<close>).\<close>

definition times_069_to_size_t :: "int \<Rightarrow> u64 option" where
  "times_069_to_size_t b =
     (let m = round_to_double (nat \<bar>b\<bar> * double_069) div 2 ^ 53
      in if b < 0 \<and> m > 0 then None else Some (of_nat m))"

subsection \<open>The policy\<close>

record BloomFilterPolicy =
  bloom_bits_per_key :: u64
  bloom_k :: u64

text \<open>The constructor takes an \<^verbatim>\<open>int\<close>; the member \<^verbatim>\<open>bits_per_key_\<close> is a
  \<^verbatim>\<open>size_t\<close>, so the argument is sign-extended to 64 bits.\<close>

definition NewBloomFilterPolicy :: "u32 \<Rightarrow> BloomFilterPolicy option" where
  "NewBloomFilterPolicy bits_per_key =
     (case times_069_to_size_t (sint bits_per_key) of
        None \<Rightarrow> None
      | Some k0 \<Rightarrow>
          let k1 = (if k0 < 1 then 1 else k0);
              k2 = (if k1 > 30 then 30 else k1)
          in Some \<lparr>bloom_bits_per_key = scast bits_per_key, bloom_k = k2\<rparr>)"

text \<open>The number of probes the specification states, on the reals.\<close>

definition spec_probes :: "int \<Rightarrow> int" where
  "spec_probes b = max 1 (min 30 \<lfloor>real_of_int b * ln 2\<rfloor>)"

text \<open>Whether the truncated double product agrees with the exact \<open>\<lfloor>69 m / 100\<rfloor>\<close>.\<close>

definition product_exact :: "nat \<Rightarrow> bool" where
  "product_exact m \<longleftrightarrow> round_to_double (m * double_069) div 2 ^ 53 = 69 * m div 100"

subsection \<open>Filters\<close>

type_synonym bytes = "u8 list"

text \<open>\<^verbatim>\<open>(h >> 17) | (h << 15)\<close>\<close>

definition rotate_right_17 :: "u32 \<Rightarrow> u32" where
  "rotate_right_17 h = (drop_bit 17 h) OR (push_bit 15 h)"

text \<open>The loop \<^verbatim>\<open>for (size_t j = 0; j < k_; j++)\<close> of \<^verbatim>\<open>CreateFilter\<close>; the first
  argument counts the iterations left. \<^verbatim>\<open>array\<close> is the string \<open>dst\<close> from index
  \<open>init_size\<close> on. A remainder by zero and a write past the end of the string are
  undefined (\<open>None\<close>).\<close>

fun CreateFilter_probes :: "nat \<Rightarrow> u64 \<Rightarrow> nat \<Rightarrow> u32 \<Rightarrow> u32 \<Rightarrow> bytes \<Rightarrow> bytes option" where
  "CreateFilter_probes 0 bits init_size h delta dst = Some dst"
| "CreateFilter_probes (Suc j) bits init_size h delta dst =
     (if bits = 0 then None
      else
        let bitpos = (ucast ((ucast h :: u64) mod bits) :: u32);
            i = init_size + unat (bitpos div 8)
        in if length dst \<le> i then None
           else CreateFilter_probes j bits init_size (h + delta) delta
                  (dst[i := (dst ! i) OR (push_bit (unat (bitpos mod 8)) 1)]))"

text \<open>The loop \<^verbatim>\<open>for (int i = 0; i < n; i++)\<close> over the keys.\<close>

fun CreateFilter_keys ::
  "(bytes \<Rightarrow> u32) \<Rightarrow> bytes list \<Rightarrow> u64 \<Rightarrow> u64 \<Rightarrow> nat \<Rightarrow> bytes \<Rightarrow> bytes option" where
  "CreateFilter_keys BloomHash [] k bits init_size dst = Some dst"
| "CreateFilter_keys BloomHash (key # keys) k bits init_size dst =
     (let h = BloomHash key; delta = rotate_right_17 h
      in case CreateFilter_probes (unat k) bits init_size h delta dst of
           None \<Rightarrow> None
         | Some dst' \<Rightarrow> CreateFilter_keys BloomHash keys k bits init_size dst')"

text \<open>\<^verbatim>\<open>CreateFilter(keys, n, dst)\<close>: the array \<open>keys\<close> with its length \<open>n\<close> is the list
  of keys. \<open>BloomHash\<close> (util/hash.cc, seed \<^verbatim>\<open>0xbc9f1d34\<close>) is a parameter.\<close>

definition CreateFilter ::
  "(bytes \<Rightarrow> u32) \<Rightarrow> BloomFilterPolicy \<Rightarrow> bytes list \<Rightarrow> bytes \<Rightarrow> bytes option" where
  "CreateFilter BloomHash p keys dst =
     (let n = (of_nat (length keys) :: u64);
          bits0 = n * bloom_bits_per_key p;
          bits1 = (if bits0 < 64 then 64 else bits0);
          bytes = (bits1 + 7) div 8;
          bits = bytes * 8;
          init_size = length dst;
          dst1 = dst @ replicate (unat bytes) 0;
          dst2 = dst1 @ [ucast (bloom_k p)]
      in CreateFilter_keys BloomHash keys (bloom_k p) bits init_size dst2)"

text \<open>The probing loop of \<^verbatim>\<open>KeyMayMatch\<close>.\<close>

fun KeyMayMatch_probes :: "nat \<Rightarrow> u64 \<Rightarrow> u32 \<Rightarrow> u32 \<Rightarrow> bytes \<Rightarrow> bool" where
  "KeyMayMatch_probes 0 bits h delta array = True"
| "KeyMayMatch_probes (Suc j) bits h delta array =
     (let bitpos = (ucast ((ucast h :: u64) mod bits) :: u32)
      in if (array ! unat (bitpos div 8)) AND (push_bit (unat (bitpos mod 8)) 1) = 0
         then False
         else KeyMayMatch_probes j bits (h + delta) delta array)"

text \<open>\<^verbatim>\<open>const size_t k = array[len - 1]\<close> reads a \<^verbatim>\<open>char\<close>, sign-extended.\<close>

definition KeyMayMatch :: "(bytes \<Rightarrow> u32) \<Rightarrow> bytes \<Rightarrow> bytes \<Rightarrow> bool" where
  "KeyMayMatch BloomHash key bloom_filter =
     (let len = length bloom_filter
      in if len < 2 then False
         else
           let bits = (of_nat (len - 1) :: u64) * 8;
               k = (scast (bloom_filter ! (len - 1)) :: u64)
           in if k > 30 then True
              else KeyMayMatch_probes (unat k) bits (BloomHash key)
                     (rotate_right_17 (BloomHash key)) bloom_filter)"

text \<open>The bit position that a probe with hash state \<open>h\<close> addresses in a filter of
  \<open>bits\<close> bits, and whether that bit is set in an array of bytes.\<close>

definition probe_pos :: "u64 \<Rightarrow> u32 \<Rightarrow> nat" where
  "probe_pos bits h = unat h mod unat bits"

definition bit_on :: "bytes \<Rightarrow> nat \<Rightarrow> bool" where
  "bit_on array pos = bit (array ! (pos div 8)) (pos mod 8)"

section \<open>Write-ahead log reader (db/log_reader.h, db/log_reader.cc)\<close>

text \<open>Modelled from the spec: the constants of \<^verbatim>\<open>db/log_format.h\<close>, which is not among the
  sources. The specification gives the record types \<open>Zero = 0\<close>, \<open>Full = 1\<close>, \<open>First = 2\<close>,
  \<open>Middle = 3\<close>, \<open>Last = 4\<close>, the block size of 32 KiB and the header of 7 bytes.\<close>

definition kZeroType :: u32 where "kZeroType = 0"
definition kFullType :: u32 where "kFullType = 1"
definition kFirstType :: u32 where "kFirstType = 2"
definition kMiddleType :: u32 where "kMiddleType = 3"
definition kLastType :: u32 where "kLastType = 4"
definition kMaxRecordType :: u32 where "kMaxRecordType = kLastType"
definition kBlockSize :: nat where "kBlockSize = 32768"
definition kHeaderSize :: nat where "kHeaderSize = 7"

text \<open>The two special values of \<^verbatim>\<open>log_reader.h\<close>.\<close>

definition kEof :: u32 where "kEof = kMaxRecordType + 1"
definition kBadRecord :: u32 where "kBadRecord = kMaxRecordType + 2"

datatype Status = Corruption string | IOError string

text \<open>A sequential file: the bytes not yet read, and whether the device fails (then every
  \<^verbatim>\<open>Read\<close> and \<^verbatim>\<open>Skip\<close> returns a non-OK status and no data).\<close>

record SequentialFile =
  contents :: bytes
  io_error :: bool

definition file_Read :: "nat \<Rightarrow> SequentialFile \<Rightarrow> Status option \<times> bytes \<times> SequentialFile" where
  "file_Read n f =
     (if io_error f then (Some (IOError ''read''), [], f)
      else (None, take n (contents f), f\<lparr>contents := drop n (contents f)\<rparr>))"

definition file_Skip :: "nat \<Rightarrow> SequentialFile \<Rightarrow> Status option \<times> SequentialFile" where
  "file_Skip n f =
     (if io_error f then (Some (IOError ''skip''), f)
      else (None, f\<lparr>contents := drop n (contents f)\<rparr>))"

text \<open>The reader. \<open>log_file\<close> is the member \<^verbatim>\<open>file_\<close>; \<open>reporter\<close> tells whether \<^verbatim>\<open>reporter_\<close> is non-null; \<open>reported\<close> is what
  the reporter's \<^verbatim>\<open>Corruption\<close> method has received so far.\<close>

record Reader =
  log_file :: SequentialFile
  reporter :: bool
  reported :: "(u64 \<times> Status) list"
  checksum :: bool
  buffer :: bytes
  eof :: bool
  last_record_offset :: u64
  end_of_buffer_offset :: u64
  initial_offset :: u64
  resyncing :: bool

definition Reader_new :: "SequentialFile \<Rightarrow> bool \<Rightarrow> bool \<Rightarrow> u64 \<Rightarrow> Reader" where
  "Reader_new f rep cs off =
     \<lparr>log_file = f, reporter = rep, reported = [], checksum = cs, buffer = [], eof = False,
      last_record_offset = 0, end_of_buffer_offset = 0, initial_offset = off,
      resyncing = (off > 0)\<rparr>"

definition ReportDrop :: "Reader \<Rightarrow> u64 \<Rightarrow> Status \<Rightarrow> Reader" where
  "ReportDrop r bytes reason =
     (if reporter r \<and>
         end_of_buffer_offset r - of_nat (length (buffer r)) - bytes \<ge> initial_offset r
      then r\<lparr>reported := reported r @ [(bytes, reason)]\<rparr>
      else r)"

definition ReportCorruption :: "Reader \<Rightarrow> u64 \<Rightarrow> string \<Rightarrow> Reader" where
  "ReportCorruption r bytes reason = ReportDrop r bytes (Corruption reason)"

definition SkipToInitialBlock :: "Reader \<Rightarrow> bool \<times> Reader" where
  "SkipToInitialBlock r =
     (let offset_in_block = initial_offset r mod of_nat kBlockSize;
          block_start_location0 = initial_offset r - offset_in_block;
          block_start_location =
            (if offset_in_block > of_nat kBlockSize - 6
             then block_start_location0 + of_nat kBlockSize else block_start_location0);
          r1 = r\<lparr>end_of_buffer_offset := block_start_location\<rparr>
      in if block_start_location > 0 then
           (case file_Skip (unat block_start_location) (log_file r1) of
              (Some skip_status, f) \<Rightarrow>
                (False, ReportDrop (r1\<lparr>log_file := f\<rparr>) block_start_location skip_status)
            | (None, f) \<Rightarrow> (True, r1\<lparr>log_file := f\<rparr>))
         else (True, r1))"

text \<open>Little-endian decoding (util/coding.h).\<close>

definition DecodeFixed32 :: "bytes \<Rightarrow> u32" where
  "DecodeFixed32 ptr =
     (ucast (ptr ! 0)) OR (push_bit 8 (ucast (ptr ! 1))) OR
     (push_bit 16 (ucast (ptr ! 2))) OR (push_bit 24 (ucast (ptr ! 3)))"

text \<open>\<^verbatim>\<open>length = a | (b << 8)\<close> of the header at the front of the buffer.\<close>

definition header_length :: "bytes \<Rightarrow> u32" where
  "header_length header =
     (let a = (ucast (header ! 4) :: u32) AND 0xff;
          b = (ucast (header ! 5) :: u32) AND 0xff
      in a OR (push_bit 8 b))"

text \<open>\<^verbatim>\<open>const unsigned int type = header[6]\<close> converts a \<^verbatim>\<open>char\<close>, sign-extended.\<close>

definition header_type :: "bytes \<Rightarrow> u32" where
  "header_type header = scast (header ! 6)"

text \<open>\<^verbatim>\<open>ReadPhysicalRecord\<close>: the loop \<^verbatim>\<open>while (true)\<close> runs again only after a read
  from the file. \<open>crc32c_Value\<close> (util/crc32c.cc) is a parameter; \<open>result\<close> is the slice
  the caller passes in, which some paths leave untouched.\<close>

function ReadPhysicalRecord ::
  "(bytes \<Rightarrow> u32) \<Rightarrow> Reader \<Rightarrow> bytes \<Rightarrow> u32 \<times> bytes \<times> Reader" where
  "ReadPhysicalRecord crc32c_Value r result =
     (if length (buffer r) < kHeaderSize then
        (if \<not> eof r then
           (case file_Read kBlockSize (log_file r) of
              (status, data, f) \<Rightarrow>
                let r1 = r\<lparr>log_file := f, buffer := data\<rparr>;
                    r2 = r1\<lparr>end_of_buffer_offset :=
                              end_of_buffer_offset r1 + of_nat (length (buffer r1))\<rparr>
                in (case status of
                      Some st \<Rightarrow>
                        (kEof, result,
                         (ReportDrop (r2\<lparr>buffer := []\<rparr>) (of_nat kBlockSize) st)\<lparr>eof := True\<rparr>)
                    | None \<Rightarrow>
                        if length (buffer r2) < kBlockSize
                        then ReadPhysicalRecord crc32c_Value (r2\<lparr>eof := True\<rparr>) result
                        else ReadPhysicalRecord crc32c_Value r2 result))
         else (kEof, result, r\<lparr>buffer := []\<rparr>))
      else
        let header = buffer r;
            type = header_type header;
            len = header_length header
        in if kHeaderSize + unat len > length (buffer r) then
             (let drop_size = length (buffer r);
                  r1 = r\<lparr>buffer := []\<rparr>
              in if \<not> eof r1
                 then (kBadRecord, result,
                       ReportCorruption r1 (of_nat drop_size) ''bad record length'')
                 else (kEof, result, r1))
           else if type = kZeroType \<and> len = 0 then
             (kBadRecord, result, r\<lparr>buffer := []\<rparr>)
           else if checksum r \<and>
                   crc32c_Value (take (1 + unat len) (drop 6 header))
                     \<noteq> Unmask (DecodeFixed32 header) then
             (let drop_size = length (buffer r);
                  r1 = r\<lparr>buffer := []\<rparr>
              in (kBadRecord, result,
                  ReportCorruption r1 (of_nat drop_size) ''checksum mismatch''))
           else
             (let r1 = r\<lparr>buffer := drop (kHeaderSize + unat len) (buffer r)\<rparr>
              in if end_of_buffer_offset r1 - of_nat (length (buffer r1)) - of_nat kHeaderSize
                      - ucast len < initial_offset r1
                 then (kBadRecord, [], r1)
                 else (type, take (unat len) (drop kHeaderSize header), r1)))"
  by pat_completeness auto
termination
proof (relation "measure (\<lambda>(c, r, res). if length (buffer r) < kHeaderSize \<and> \<not> eof r then 1 else 0)")
  show "wf (measure (\<lambda>(c, r, res). if length (buffer r) < kHeaderSize \<and> \<not> eof r then 1 else (0::nat)))"
    by simp
qed (auto simp add: kHeaderSize_def kBlockSize_def)

declare ReadPhysicalRecord.simps [simp del]

text \<open>What is left to read: the rest of the file and the buffer.\<close>

definition unread :: "Reader \<Rightarrow> nat" where
  "unread r = length (contents (log_file r)) + length (buffer r)"

lemma ReportDrop_fields [simp]:
  "log_file (ReportDrop r n st) = log_file r"
  "buffer (ReportDrop r n st) = buffer r"
  "eof (ReportDrop r n st) = eof r"
  "resyncing (ReportDrop r n st) = resyncing r"
  "reporter (ReportDrop r n st) = reporter r"
  "checksum (ReportDrop r n st) = checksum r"
  "initial_offset (ReportDrop r n st) = initial_offset r"
  "end_of_buffer_offset (ReportDrop r n st) = end_of_buffer_offset r"
  "last_record_offset (ReportDrop r n st) = last_record_offset r"
  by (simp_all add: ReportDrop_def)

lemma ReportCorruption_fields [simp]:
  "log_file (ReportCorruption r n msg) = log_file r"
  "buffer (ReportCorruption r n msg) = buffer r"
  "eof (ReportCorruption r n msg) = eof r"
  "resyncing (ReportCorruption r n msg) = resyncing r"
  "reporter (ReportCorruption r n msg) = reporter r"
  "checksum (ReportCorruption r n msg) = checksum r"
  "initial_offset (ReportCorruption r n msg) = initial_offset r"
  "end_of_buffer_offset (ReportCorruption r n msg) = end_of_buffer_offset r"
  "last_record_offset (ReportCorruption r n msg) = last_record_offset r"
  by (simp_all add: ReportCorruption_def)

lemma unread_ReportDrop [simp]: "unread (ReportDrop r n st) = unread r"
  by (simp add: ReportDrop_def unread_def)

lemma unread_ReportCorruption [simp]: "unread (ReportCorruption r n msg) = unread r"
  by (simp add: ReportCorruption_def)

lemma unread_resyncing [simp]: "unread (r\<lparr>resyncing := b\<rparr>) = unread r"
  by (simp add: unread_def)

lemma kEof_distinct [simp]:
  "kMiddleType \<noteq> kEof" "kLastType \<noteq> kEof" "kFirstType \<noteq> kEof" "kFullType \<noteq> kEof"
  "kBadRecord \<noteq> kEof"
  by (simp_all add: kEof_def kBadRecord_def kMaxRecordType_def kMiddleType_def kLastType_def
      kFirstType_def kFullType_def)

lemma ReadPhysicalRecord_progress:
  "ReadPhysicalRecord crc r res = (t, res', r') \<Longrightarrow> t \<noteq> kEof \<Longrightarrow> unread r' < unread r"
proof (induction crc r res rule: ReadPhysicalRecord.induct)
  case (1 crc r res)
  show ?case
  proof (cases "length (buffer r) < kHeaderSize")
    case short: True
    show ?thesis
    proof (cases "eof r")
      case True
      with short "1.prems" show ?thesis
        by (subst (asm) ReadPhysicalRecord.simps) simp
    next
      case False
      obtain status data f where rd: "file_Read kBlockSize (log_file r) = (status, data, f)"
        by (cases "file_Read kBlockSize (log_file r)") auto
      define r2 where "r2 = r\<lparr>log_file := f, buffer := data,
        end_of_buffer_offset := end_of_buffer_offset r + of_nat (length data)\<rparr>"
      show ?thesis
      proof (cases status)
        case (Some st)
        with short False rd "1.prems" show ?thesis
          by (subst (asm) ReadPhysicalRecord.simps) (simp add: Let_def)
      next
        case None
        with rd have le: "unread r2 \<le> unread r"
          by (auto simp add: file_Read_def unread_def r2_def split: if_splits)
        show ?thesis
        proof (cases "length data < kBlockSize")
          case True
          with short False rd None "1.prems"
          have "ReadPhysicalRecord crc (r2\<lparr>eof := True\<rparr>) res = (t, res', r')"
            by (subst (asm) ReadPhysicalRecord.simps) (simp add: Let_def r2_def)
          with "1.IH"(1) [OF short False rd [symmetric] _ _ _ None] True "1.prems"(2)
          have "unread r' < unread (r2\<lparr>eof := True\<rparr>)"
            by (simp add: r2_def)
          with le show ?thesis by (simp add: unread_def)
        next
          case big: False
          with short False rd None "1.prems"
          have "ReadPhysicalRecord crc r2 res = (t, res', r')"
            by (subst (asm) ReadPhysicalRecord.simps) (simp add: Let_def r2_def)
          with "1.IH"(2) [OF short False rd [symmetric] _ _ _ None] big "1.prems"(2)
          have "unread r' < unread r2"
            by (simp add: r2_def)
          with le show ?thesis by simp
        qed
      qed
    qed
  next
    case long: False
    then have "0 < length (buffer r)" by (cases "buffer r") (simp_all add: kHeaderSize_def)
    with long "1.prems" show ?thesis
      by (subst (asm) ReadPhysicalRecord.simps)
         (auto simp add: Let_def unread_def kHeaderSize_def split: if_splits)
  qed
qed

text \<open>\<^verbatim>\<open>snprintf(buf, sizeof(buf), "unknown record type %u", record_type)\<close>\<close>

fun decimal :: "nat \<Rightarrow> string" where
  "decimal n = (if n < 10 then [char_of (48 + n)]
                else decimal (n div 10) @ [char_of (48 + n mod 10)])"

declare decimal.simps [simp del]

text \<open>The loop \<^verbatim>\<open>while (true)\<close> of \<^verbatim>\<open>ReadRecord\<close>, carrying its local variables
  \<open>scratch\<close>, \<open>in_fragmented_record\<close>, \<open>prospective_record_offset\<close> and \<open>fragment\<close>.
  The result is the return value, \<open>record\<close>, \<open>scratch\<close> and the reader.\<close>

function ReadRecord_loop ::
  "(bytes \<Rightarrow> u32) \<Rightarrow> Reader \<Rightarrow> bytes \<Rightarrow> bool \<Rightarrow> u64 \<Rightarrow> bytes
     \<Rightarrow> bool \<times> bytes \<times> bytes \<times> Reader" where
  "ReadRecord_loop crc32c_Value r scratch in_fragmented_record prospective_record_offset fragment0 =
     (case ReadPhysicalRecord crc32c_Value r fragment0 of
        (record_type, fragment, r1) \<Rightarrow>
          let physical_record_offset =
                end_of_buffer_offset r1 - of_nat (length (buffer r1)) - of_nat kHeaderSize
                  - of_nat (length fragment)
          in
          if resyncing r1 \<and> record_type = kMiddleType then
            ReadRecord_loop crc32c_Value r1 scratch in_fragmented_record
              prospective_record_offset fragment
          else if resyncing r1 \<and> record_type = kLastType then
            ReadRecord_loop crc32c_Value (r1\<lparr>resyncing := False\<rparr>) scratch in_fragmented_record
              prospective_record_offset fragment
          else
            let r2 = (if resyncing r1 then r1\<lparr>resyncing := False\<rparr> else r1)
            in
            if record_type = kFullType then
              (let r3 = (if in_fragmented_record \<and> scratch \<noteq> []
                         then ReportCorruption r2 (of_nat (length scratch))
                                ''partial record without end(1)''
                         else r2)
               in (True, fragment, [], r3\<lparr>last_record_offset := physical_record_offset\<rparr>))
            else if record_type = kFirstType then
              (let r3 = (if in_fragmented_record \<and> scratch \<noteq> []
                         then ReportCorruption r2 (of_nat (length scratch))
                                ''partial record without end(2)''
                         else r2)
               in ReadRecord_loop crc32c_Value r3 fragment True physical_record_offset fragment)
            else if record_type = kMiddleType then
              (if \<not> in_fragmented_record then
                 ReadRecord_loop crc32c_Value
                   (ReportCorruption r2 (of_nat (length fragment))
                      ''missing start of fragmented record(1)'')
                   scratch in_fragmented_record prospective_record_offset fragment
               else
                 ReadRecord_loop crc32c_Value r2 (scratch @ fragment) in_fragmented_record
                   prospective_record_offset fragment)
            else if record_type = kLastType then
              (if \<not> in_fragmented_record then
                 ReadRecord_loop crc32c_Value
                   (ReportCorruption r2 (of_nat (length fragment))
                      ''missing start of fragmented record(2)'')
                   scratch in_fragmented_record prospective_record_offset fragment
               else
                 (True, scratch @ fragment, scratch @ fragment,
                  r2\<lparr>last_record_offset := prospective_record_offset\<rparr>))
            else if record_type = kEof then
              (False, [], (if in_fragmented_record then [] else scratch), r2)
            else if record_type = kBadRecord then
              (if in_fragmented_record then
                 ReadRecord_loop crc32c_Value
                   (ReportCorruption r2 (of_nat (length scratch)) ''error in middle of record'')
                   [] False prospective_record_offset fragment
               else
                 ReadRecord_loop crc32c_Value r2 scratch in_fragmented_record
                   prospective_record_offset fragment)
            else
              ReadRecord_loop crc32c_Value
                (ReportCorruption r2
                   (of_nat (length fragment + (if in_fragmented_record then length scratch else 0)))
                   (''unknown record type '' @ decimal (unat record_type)))
                [] False prospective_record_offset fragment)"
  by pat_completeness auto
termination
proof (relation "measure (\<lambda>(c, r, s, i, p, f). unread r)")
  show "wf (measure (\<lambda>(c, r, s, i, p, f). unread r))" by simp
qed (auto dest!: sym [of "(_, _, _)" "ReadPhysicalRecord _ _ _"] dest: ReadPhysicalRecord_progress)

text \<open>\<^verbatim>\<open>ReadRecord(record, scratch)\<close>; when the skip to the initial block fails, the two
  output parameters are left as they were.\<close>

declare ReadRecord_loop.simps [simp del]

definition ReadRecord ::
  "(bytes \<Rightarrow> u32) \<Rightarrow> Reader \<Rightarrow> bytes \<Rightarrow> bytes \<Rightarrow> bool \<times> bytes \<times> bytes \<times> Reader" where
  "ReadRecord crc32c_Value r record scratch =
     (if last_record_offset r < initial_offset r then
        (case SkipToInitialBlock r of
           (ok, r1) \<Rightarrow>
             if \<not> ok then (False, record, scratch, r1)
             else ReadRecord_loop crc32c_Value r1 [] False 0 [])
      else ReadRecord_loop crc32c_Value r [] False 0 [])"

subsection \<open>Sample logs\<close>

text \<open>A checksum function for readers that do not verify checksums.\<close>

definition zero_crc :: "bytes \<Rightarrow> u32" where
  "zero_crc data = 0"

text \<open>A physical record without a checksum: four zero bytes, the length in two bytes, the
  type, the payload.\<close>

definition plain_record :: "u8 \<Rightarrow> bytes \<Rightarrow> bytes" where
  "plain_record t payload =
     [0, 0, 0, 0, of_nat (length payload mod 256), of_nat (length payload div 256), t] @ payload"

definition torn_block :: SequentialFile where
  "torn_block =
     \<lparr>contents = plain_record 1 (replicate 32751 0) @ [0, 0, 0, 0, 100, 0, 1, 9, 9, 9] @ [0],
      io_error = False\<rparr>"

definition resync_log :: SequentialFile where
  "resync_log =
     \<lparr>contents = replicate 32768 0 @ plain_record 4 [65] @ plain_record 3 [66]
                    @ plain_record 1 [67],
      io_error = False\<rparr>"

definition torn_state :: Reader where
  "torn_state =
     \<lparr>log_file = \<lparr>contents = [0], io_error = False\<rparr>, reporter = True, reported = [],
      checksum = False, buffer = [0, 0, 0, 0, 100, 0, 1, 9, 9, 9], eof = False,
      last_record_offset = 0, end_of_buffer_offset = 32768, initial_offset = 32760,
      resyncing = True\<rparr>"

definition resync_state :: Reader where
  "resync_state =
     \<lparr>log_file = \<lparr>contents = [], io_error = False\<rparr>, reporter = True, reported = [],
      checksum = False, buffer = plain_record 3 [66] @ plain_record 1 [67], eof = True,
      last_record_offset = 0, end_of_buffer_offset = 32784, initial_offset = 32768,
      resyncing = True\<rparr>"

section \<open>Merging iterator (table/merger.cc)\<close>

text \<open>Modelled from the spec: the \<^verbatim>\<open>Iterator\<close> interface (include/leveldb/iterator.h) and
  \<^verbatim>\<open>IteratorWrapper\<close> are not among the sources. A child iterator ranges over a finite
  sequence of entries; it is valid while its position is inside the sequence. \<open>Seek\<close>
  positions at the first entry whose key is not below the target; \<open>Next\<close> and \<open>Prev\<close>
  require a valid iterator (\<open>None\<close> is the failed assertion).\<close>

record ('k, 'v) ChildIter =
  entries :: "('k \<times> 'v) list"
  position :: nat

definition child_Valid :: "('k, 'v) ChildIter \<Rightarrow> bool" where
  "child_Valid c = (position c < length (entries c))"

definition child_key :: "('k, 'v) ChildIter \<Rightarrow> 'k" where
  "child_key c = fst (entries c ! position c)"

definition child_value :: "('k, 'v) ChildIter \<Rightarrow> 'v" where
  "child_value c = snd (entries c ! position c)"

definition child_SeekToFirst :: "('k, 'v) ChildIter \<Rightarrow> ('k, 'v) ChildIter" where
  "child_SeekToFirst c = c\<lparr>position := 0\<rparr>"

definition child_SeekToLast :: "('k, 'v) ChildIter \<Rightarrow> ('k, 'v) ChildIter" where
  "child_SeekToLast c = c\<lparr>position := length (entries c) - 1\<rparr>"

definition child_Seek :: "('k \<Rightarrow> 'k \<Rightarrow> int) \<Rightarrow> 'k \<Rightarrow> ('k, 'v) ChildIter \<Rightarrow> ('k, 'v) ChildIter" where
  "child_Seek cmp target c =
     c\<lparr>position := length (takeWhile (\<lambda>e. cmp (fst e) target < 0) (entries c))\<rparr>"

definition child_Next :: "('k, 'v) ChildIter \<Rightarrow> ('k, 'v) ChildIter option" where
  "child_Next c = (if child_Valid c then Some (c\<lparr>position := position c + 1\<rparr>) else None)"

definition child_Prev :: "('k, 'v) ChildIter \<Rightarrow> ('k, 'v) ChildIter option" where
  "child_Prev c =
     (if child_Valid c
      then Some (c\<lparr>position := (if position c = 0 then length (entries c)
                                  else position c - 1)\<rparr>)
      else None)"

datatype Direction = kForward | kReverse

text \<open>\<^verbatim>\<open>current_\<close> points into the array \<^verbatim>\<open>children_\<close> or is null: an index or \<open>None\<close>.\<close>

record ('k, 'v) MergingIterator =
  comparator :: "'k \<Rightarrow> 'k \<Rightarrow> int"
  children :: "('k, 'v) ChildIter list"
  current :: "nat option"
  direction :: Direction

definition MergingIterator_new ::
  "('k \<Rightarrow> 'k \<Rightarrow> int) \<Rightarrow> ('k, 'v) ChildIter list \<Rightarrow> ('k, 'v) MergingIterator" where
  "MergingIterator_new cmp cs =
     \<lparr>comparator = cmp, children = cs, current = None, direction = kForward\<rparr>"

definition Valid :: "('k, 'v) MergingIterator \<Rightarrow> bool" where
  "Valid m = (current m \<noteq> None)"

text \<open>One round of the loop of \<^verbatim>\<open>FindSmallest\<close>, for the child at index \<open>i\<close>.\<close>

definition FindSmallest_step ::
  "('k, 'v) MergingIterator \<Rightarrow> nat option \<Rightarrow> nat \<Rightarrow> nat option" where
  "FindSmallest_step m smallest i =
     (let child = children m ! i
      in if child_Valid child then
           (case smallest of
              None \<Rightarrow> Some i
            | Some s \<Rightarrow>
                if comparator m (child_key child) (child_key (children m ! s)) < 0
                then Some i else Some s)
         else smallest)"

definition FindSmallest :: "('k, 'v) MergingIterator \<Rightarrow> ('k, 'v) MergingIterator" where
  "FindSmallest m =
     m\<lparr>current := foldl (FindSmallest_step m) None [0..<length (children m)]\<rparr>"

text \<open>\<^verbatim>\<open>FindLargest\<close> walks the children from the last to the first.\<close>

definition FindLargest_step ::
  "('k, 'v) MergingIterator \<Rightarrow> nat option \<Rightarrow> nat \<Rightarrow> nat option" where
  "FindLargest_step m largest i =
     (let child = children m ! i
      in if child_Valid child then
           (case largest of
              None \<Rightarrow> Some i
            | Some l \<Rightarrow>
                if comparator m (child_key child) (child_key (children m ! l)) > 0
                then Some i else Some l)
         else largest)"

definition FindLargest :: "('k, 'v) MergingIterator \<Rightarrow> ('k, 'v) MergingIterator" where
  "FindLargest m =
     m\<lparr>current := foldl (FindLargest_step m) None (rev [0..<length (children m)])\<rparr>"

definition SeekToFirst :: "('k, 'v) MergingIterator \<Rightarrow> ('k, 'v) MergingIterator" where
  "SeekToFirst m =
     (FindSmallest (m\<lparr>children := map child_SeekToFirst (children m)\<rparr>))\<lparr>direction := kForward\<rparr>"

definition SeekToLast :: "('k, 'v) MergingIterator \<Rightarrow> ('k, 'v) MergingIterator" where
  "SeekToLast m =
     (FindLargest (m\<lparr>children := map child_SeekToLast (children m)\<rparr>))\<lparr>direction := kReverse\<rparr>"

definition Seek :: "'k \<Rightarrow> ('k, 'v) MergingIterator \<Rightarrow> ('k, 'v) MergingIterator" where
  "Seek target m =
     (FindSmallest (m\<lparr>children := map (child_Seek (comparator m) target) (children m)\<rparr>))
       \<lparr>direction := kForward\<rparr>"

text \<open>\<^verbatim>\<open>key()\<close> and \<^verbatim>\<open>value()\<close> assert \<^verbatim>\<open>Valid()\<close>.\<close>

definition current_key :: "('k, 'v) MergingIterator \<Rightarrow> 'k option" where
  "current_key m = (case current m of None \<Rightarrow> None | Some cur \<Rightarrow> Some (child_key (children m ! cur)))"

definition current_value :: "('k, 'v) MergingIterator \<Rightarrow> 'v option" where
  "current_value m = (case current m of None \<Rightarrow> None | Some cur \<Rightarrow> Some (child_value (children m ! cur)))"

text \<open>The loop of \<^verbatim>\<open>Next\<close> that runs when the direction is not forward: every child but
  the current one is positioned after \<open>k = key()\<close>.\<close>

definition after_key :: "('k \<Rightarrow> 'k \<Rightarrow> int) \<Rightarrow> 'k \<Rightarrow> ('k, 'v) ChildIter \<Rightarrow> ('k, 'v) ChildIter" where
  "after_key cmp k child0 =
     (let child = child_Seek cmp k child0
      in if child_Valid child \<and> cmp k (child_key child) = 0
         then (case child_Next child of Some c \<Rightarrow> c | None \<Rightarrow> child)
         else child)"

text \<open>The loop of \<^verbatim>\<open>Prev\<close> that runs when the direction is not reverse.\<close>

definition before_key :: "('k \<Rightarrow> 'k \<Rightarrow> int) \<Rightarrow> 'k \<Rightarrow> ('k, 'v) ChildIter \<Rightarrow> ('k, 'v) ChildIter" where
  "before_key cmp k child0 =
     (let child = child_Seek cmp k child0
      in if child_Valid child
         then (case child_Prev child of Some c \<Rightarrow> c | None \<Rightarrow> child)
         else child_SeekToLast child)"

definition reposition ::
  "(('k, 'v) ChildIter \<Rightarrow> ('k, 'v) ChildIter) \<Rightarrow> nat \<Rightarrow> ('k, 'v) ChildIter list
     \<Rightarrow> ('k, 'v) ChildIter list" where
  "reposition f cur cs = map (\<lambda>i. if i \<noteq> cur then f (cs ! i) else cs ! i) [0..<length cs]"

text \<open>\<open>None\<close> is the failed \<^verbatim>\<open>assert(Valid())\<close>, of the merging iterator or of the
  current child.\<close>

definition Next :: "('k, 'v) MergingIterator \<Rightarrow> ('k, 'v) MergingIterator option" where
  "Next m =
     (case current m of
        None \<Rightarrow> None
      | Some cur \<Rightarrow>
          if length (children m) \<le> cur then None
          else
            let m1 = (if direction m \<noteq> kForward
                      then m\<lparr>children :=
                               reposition
                                 (after_key (comparator m) (child_key (children m ! cur)))
                                 cur (children m),
                             direction := kForward\<rparr>
                      else m)
            in case child_Next (children m1 ! cur) of
                 None \<Rightarrow> None
               | Some c \<Rightarrow> Some (FindSmallest (m1\<lparr>children := (children m1)[cur := c]\<rparr>)))"

definition Prev :: "('k, 'v) MergingIterator \<Rightarrow> ('k, 'v) MergingIterator option" where
  "Prev m =
     (case current m of
        None \<Rightarrow> None
      | Some cur \<Rightarrow>
          if length (children m) \<le> cur then None
          else
            let m1 = (if direction m \<noteq> kReverse
                      then m\<lparr>children :=
                               reposition
                                 (before_key (comparator m) (child_key (children m ! cur)))
                                 cur (children m),
                             direction := kReverse\<rparr>
                      else m)
            in case child_Prev (children m1 ! cur) of
                 None \<Rightarrow> None
               | Some c \<Rightarrow> Some (FindLargest (m1\<lparr>children := (children m1)[cur := c]\<rparr>)))"

text \<open>The entries the children have not yet passed.\<close>

definition remaining :: "('k, 'v) MergingIterator \<Rightarrow> nat" where
  "remaining m = (\<Sum>c\<leftarrow>children m. length (entries c) - position c)"

lemma children_FindSmallest [simp]: "children (FindSmallest m) = children m"
  and direction_FindSmallest [simp]: "direction (FindSmallest m) = direction m"
  and comparator_FindSmallest [simp]: "comparator (FindSmallest m) = comparator m"
  by (simp_all add: FindSmallest_def)

lemma sum_list_update_less:
  fixes f :: "'a \<Rightarrow> nat"
  assumes "i < length xs" and "f y < f (xs ! i)"
  shows "sum_list (map f (xs[i := y])) < sum_list (map f xs)"
proof -
  have "sum_list (map f (xs[i := y])) = sum_list ((map f xs)[i := f y])"
    by (simp add: map_update)
  also have "\<dots> = sum_list (map f xs) + f y - f (xs ! i)"
    using assms(1) by (simp add: sum_list_update)
  also have "\<dots> < sum_list (map f xs)"
  proof -
    have "f (xs ! i) \<le> sum_list (map f xs)"
      using assms(1) by (intro member_le_sum_list) simp_all
    with assms(2) show ?thesis by simp
  qed
  finally show ?thesis .
qed

lemma Next_forward:
  assumes "Next m = Some m'"
  shows "direction m' = kForward"
    and "direction m = kForward \<Longrightarrow> remaining m' < remaining m"
proof -
  from assms obtain cur where cur: "current m = Some cur" "cur < length (children m)"
    by (auto simp add: Next_def split: option.splits if_splits)
  show "direction m' = kForward"
    using assms cur by (auto simp add: Next_def Let_def split: option.splits if_splits)
  assume fwd: "direction m = kForward"
  with assms cur obtain c where c: "child_Next (children m ! cur) = Some c"
    and m': "m' = FindSmallest (m\<lparr>children := (children m)[cur := c]\<rparr>)"
    by (auto simp add: Next_def Let_def split: option.splits)
  from c have "length (entries c) - position c
      < length (entries (children m ! cur)) - position (children m ! cur)"
    by (auto simp add: child_Next_def child_Valid_def split: if_splits)
  with cur(2) show "remaining m' < remaining m"
    unfolding remaining_def m' by (simp add: sum_list_update_less)
qed

text \<open>\<^verbatim>\<open>SeekToFirst\<close> is followed by \<^verbatim>\<open>Next\<close> as long as the iterator is valid; the
  entries visited are collected. \<open>None\<close> is a failed assertion on the way.\<close>

function visit :: "('k, 'v) MergingIterator \<Rightarrow> ('k \<times> 'v) list option" where
  "visit m =
     (case current m of
        None \<Rightarrow> Some []
      | Some cur \<Rightarrow>
          (case Next m of
             None \<Rightarrow> None
           | Some m' \<Rightarrow>
               (case visit m' of
                  None \<Rightarrow> None
                | Some xs \<Rightarrow>
                    Some ((child_key (children m ! cur), child_value (children m ! cur)) # xs))))"
  by pat_completeness auto
termination
proof (relation "measures [\<lambda>m. if direction m = kForward then 0 else 1, remaining]")
  show "wf (measures [\<lambda>m. if direction m = kForward then 0 else (1::nat), remaining])"
    by simp
next
  fix m :: "('k, 'v) MergingIterator" and cur m'
  assume "current m = Some cur" and "Next m = Some m'"
  then show "(m', m) \<in> measures [\<lambda>m. if direction m = kForward then 0 else (1::nat), remaining]"
    using Next_forward [of m m'] by auto
qed

declare visit.simps [simp del]

text \<open>A three-way comparator orders the keys: swapping the arguments swaps the sign, and
  \<open>\<le>\<close> is transitive. \<open>key_le\<close> compares two entries by their keys.\<close>

definition comparator_ok :: "('k \<Rightarrow> 'k \<Rightarrow> int) \<Rightarrow> bool" where
  "comparator_ok cmp \<longleftrightarrow>
     (\<forall>a b. (cmp a b < 0) = (0 < cmp b a)) \<and>
     (\<forall>a b c. cmp a b \<le> 0 \<longrightarrow> cmp b c \<le> 0 \<longrightarrow> cmp a c \<le> 0)"

definition key_le :: "('k \<Rightarrow> 'k \<Rightarrow> int) \<Rightarrow> 'k \<times> 'v \<Rightarrow> 'k \<times> 'v \<Rightarrow> bool" where
  "key_le cmp a b \<longleftrightarrow> cmp (fst a) (fst b) \<le> 0"

text \<open>The entries at and after the positions of the children, in the order of the
  children; \<open>head m i\<close> is the entry under child \<open>i\<close>; \<open>Next_times n\<close> calls \<^verbatim>\<open>Next\<close>
  \<open>n\<close> times.\<close>

definition unvisited :: "('k, 'v) MergingIterator \<Rightarrow> ('k \<times> 'v) list" where
  "unvisited m = concat (map (\<lambda>c. drop (position c) (entries c)) (children m))"

fun Next_times :: "nat \<Rightarrow> ('k, 'v) MergingIterator \<Rightarrow> ('k, 'v) MergingIterator option" where
  "Next_times 0 m = Some m"
| "Next_times (Suc n) m = (case Next m of None \<Rightarrow> None | Some m' \<Rightarrow> Next_times n m')"

definition head :: "('k, 'v) MergingIterator \<Rightarrow> nat \<Rightarrow> 'k \<times> 'v" where
  "head m i = entries (children m ! i) ! position (children m ! i)"

text \<open>Modelled from the spec: \<^verbatim>\<open>NewEmptyIterator\<close> (table/iterator.cc) is not among the
  sources. The empty iterator of the specification's iterator set ranges over no entry:
  it is not valid, positioning leaves it as it is, and \<open>Next\<close> and \<open>Prev\<close> fail their
  assertion.\<close>

datatype ('k, 'v) Iterator =
  EmptyIterator
| Child "('k, 'v) ChildIter"
| Merging "('k, 'v) MergingIterator"

datatype 'k iterator_op = OpSeekToFirst | OpSeekToLast | OpSeek 'k | OpNext | OpPrev

fun Iterator_Valid :: "('k, 'v) Iterator \<Rightarrow> bool" where
  "Iterator_Valid EmptyIterator = False"
| "Iterator_Valid (Child c) = child_Valid c"
| "Iterator_Valid (Merging m) = Valid m"

fun Iterator_apply ::
  "('k \<Rightarrow> 'k \<Rightarrow> int) \<Rightarrow> 'k iterator_op \<Rightarrow> ('k, 'v) Iterator \<Rightarrow> ('k, 'v) Iterator option" where
  "Iterator_apply cmp OpNext EmptyIterator = None"
| "Iterator_apply cmp OpPrev EmptyIterator = None"
| "Iterator_apply cmp _ EmptyIterator = Some EmptyIterator"
| "Iterator_apply cmp OpSeekToFirst (Child c) = Some (Child (child_SeekToFirst c))"
| "Iterator_apply cmp OpSeekToLast (Child c) = Some (Child (child_SeekToLast c))"
| "Iterator_apply cmp (OpSeek k) (Child c) = Some (Child (child_Seek cmp k c))"
| "Iterator_apply cmp OpNext (Child c) = map_option Child (child_Next c)"
| "Iterator_apply cmp OpPrev (Child c) = map_option Child (child_Prev c)"
| "Iterator_apply cmp OpSeekToFirst (Merging m) = Some (Merging (SeekToFirst m))"
| "Iterator_apply cmp OpSeekToLast (Merging m) = Some (Merging (SeekToLast m))"
| "Iterator_apply cmp (OpSeek k) (Merging m) = Some (Merging (Seek k m))"
| "Iterator_apply cmp OpNext (Merging m) = map_option Merging (Next m)"
| "Iterator_apply cmp OpPrev (Merging m) = map_option Merging (Prev m)"

fun Iterator_run ::
  "('k \<Rightarrow> 'k \<Rightarrow> int) \<Rightarrow> 'k iterator_op list \<Rightarrow> ('k, 'v) Iterator \<Rightarrow> ('k, 'v) Iterator option" where
  "Iterator_run cmp [] it = Some it"
| "Iterator_run cmp (x # ops) it =
     (case Iterator_apply cmp x it of None \<Rightarrow> None | Some it' \<Rightarrow> Iterator_run cmp ops it')"

text \<open>\<^verbatim>\<open>NewMergingIterator(comparator, children, n)\<close>; \<open>None\<close> is the failed
  \<^verbatim>\<open>assert(n >= 0)\<close> or a read past the end of the array \<open>children\<close>.\<close>

definition NewMergingIterator ::
  "('k \<Rightarrow> 'k \<Rightarrow> int) \<Rightarrow> ('k, 'v) ChildIter list \<Rightarrow> int \<Rightarrow> ('k, 'v) Iterator option" where
  "NewMergingIterator cmp cs n =
     (if \<not> 0 \<le> n \<or> int (length cs) < n then None
      else if n = 0 then Some EmptyIterator
      else if n = 1 then Some (Child (cs ! 0))
      else Some (Merging (MergingIterator_new cmp (take (nat n) cs))))"

text \<open>A comparator on numbers and two children, for concrete runs.\<close>

definition nat_compare :: "nat \<Rightarrow> nat \<Rightarrow> int" where
  "nat_compare a b = int a - int b"

definition two_children :: "(nat, nat) ChildIter list" where
  "two_children =
     [\<lparr>entries = [(1, 10), (3, 30)], position = 0\<rparr>, \<lparr>entries = [(2, 20), (3, 31)], position = 7\<rparr>]"

section \<open>LRU cache (util/cache.cc)\<close>

text \<open>Handles live on the heap; a handle is named by its address. The fields \<^verbatim>\<open>next\<close>,
  \<^verbatim>\<open>prev\<close> and \<^verbatim>\<open>next_hash\<close> are not fields of the model: the two circular lists and
  the chains of the hash table are kept as lists of addresses. The deleter is not stored
  either: the shard logs every call of a deleter with the key and the value passed.\<close>

type_synonym addr = nat

record 'v LRUHandle =
  h_value :: 'v
  h_charge :: u64
  h_key :: bytes
  h_in_cache :: bool
  h_refs :: u32
  h_hash :: u32

text \<open>A shard. \<open>lru\<close> and \<open>in_use\<close> are the lists behind the dummy heads \<^verbatim>\<open>lru_\<close> and
  \<^verbatim>\<open>in_use_\<close>, oldest entry first (\<^verbatim>\<open>lru_.next\<close> is the head of \<open>lru\<close>). \<open>table\<close> is
  the content of \<^verbatim>\<open>table_\<close>: the entries of all buckets. \<open>heap\<close> holds the handles
  that are allocated and not freed; \<open>next_addr\<close> is the address \<^verbatim>\<open>malloc\<close> returns next,
  a fresh one at every call.\<close>

record 'v LRUCache =
  capacity :: u64
  usage :: u64
  lru :: "addr list"
  in_use :: "addr list"
  table :: "addr list"
  heap :: "addr \<rightharpoonup> 'v LRUHandle"
  next_addr :: addr
  deleted :: "(bytes \<times> 'v) list"

text \<open>\<^verbatim>\<open>LRUCache::LRUCache()\<close> and \<^verbatim>\<open>SetCapacity\<close>.\<close>

definition LRUCache_new :: "u64 \<Rightarrow> 'v LRUCache" where
  "LRUCache_new c =
     \<lparr>capacity = c, usage = 0, lru = [], in_use = [], table = [], heap = Map.empty,
      next_addr = 0, deleted = []\<rparr>"

subsection \<open>HandleTable\<close>

text \<open>\<^verbatim>\<open>FindPointer\<close> walks a chain until the hash and the key match. A freed handle in
  the table never matches here (the code would read freed memory).\<close>

definition matches :: "'v LRUCache \<Rightarrow> bytes \<Rightarrow> u32 \<Rightarrow> addr \<Rightarrow> bool" where
  "matches s k h a = (case heap s a of None \<Rightarrow> False | Some e \<Rightarrow> h_hash e = h \<and> h_key e = k)"

definition table_Lookup :: "'v LRUCache \<Rightarrow> bytes \<Rightarrow> u32 \<Rightarrow> addr option" where
  "table_Lookup s k h = find (matches s k h) (table s)"

text \<open>\<^verbatim>\<open>HandleTable::Insert\<close>: the new handle takes the place of an old one with the same
  key and hash, or goes to the end of the chain. The old handle is returned.\<close>

definition table_Insert :: "'v LRUCache \<Rightarrow> addr \<Rightarrow> 'v LRUHandle \<Rightarrow> addr option \<times> 'v LRUCache" where
  "table_Insert s a e =
     (case table_Lookup s (h_key e) (h_hash e) of
        None \<Rightarrow> (None, s\<lparr>table := table s @ [a]\<rparr>)
      | Some old \<Rightarrow> (Some old, s\<lparr>table := map (\<lambda>x. if x = old then a else x) (table s)\<rparr>))"

definition table_Remove :: "'v LRUCache \<Rightarrow> bytes \<Rightarrow> u32 \<Rightarrow> addr option \<times> 'v LRUCache" where
  "table_Remove s k h =
     (case table_Lookup s k h of
        None \<Rightarrow> (None, s)
      | Some result \<Rightarrow> (Some result, s\<lparr>table := remove1 result (table s)\<rparr>))"

subsection \<open>LRUCache\<close>

text \<open>\<open>None\<close> stands for a failed assertion and for the use of a handle that is not
  allocated, or not on a list when it is unlinked.\<close>

definition LRU_Remove :: "'v LRUCache \<Rightarrow> addr \<Rightarrow> 'v LRUCache option" where
  "LRU_Remove s e =
     (if e \<in> set (lru s) \<or> e \<in> set (in_use s)
      then Some (s\<lparr>lru := remove1 e (lru s), in_use := remove1 e (in_use s)\<rparr>)
      else None)"

definition LRU_Append_lru :: "'v LRUCache \<Rightarrow> addr \<Rightarrow> 'v LRUCache" where
  "LRU_Append_lru s e = s\<lparr>lru := lru s @ [e]\<rparr>"

definition LRU_Append_in_use :: "'v LRUCache \<Rightarrow> addr \<Rightarrow> 'v LRUCache" where
  "LRU_Append_in_use s e = s\<lparr>in_use := in_use s @ [e]\<rparr>"

definition set_refs :: "'v LRUCache \<Rightarrow> addr \<Rightarrow> u32 \<Rightarrow> 'v LRUCache" where
  "set_refs s e n = s\<lparr>heap := (heap s)(e := map_option (\<lambda>h. h\<lparr>h_refs := n\<rparr>) (heap s e))\<rparr>"

definition Ref :: "'v LRUCache \<Rightarrow> addr \<Rightarrow> 'v LRUCache option" where
  "Ref s e =
     (case heap s e of
        None \<Rightarrow> None
      | Some h \<Rightarrow>
          (case (if h_refs h = 1 \<and> h_in_cache h
                 then map_option (\<lambda>s1. LRU_Append_in_use s1 e) (LRU_Remove s e)
                 else Some s) of
             None \<Rightarrow> None
           | Some s1 \<Rightarrow> Some (set_refs s1 e (h_refs h + 1))))"

definition Unref :: "'v LRUCache \<Rightarrow> addr \<Rightarrow> 'v LRUCache option" where
  "Unref s e =
     (case heap s e of
        None \<Rightarrow> None
      | Some h \<Rightarrow>
          if \<not> h_refs h > 0 then None
          else
            let refs = h_refs h - 1; s1 = set_refs s e refs
            in if refs = 0 then
                 (if h_in_cache h then None
                  else Some (s1\<lparr>deleted := deleted s1 @ [(h_key h, h_value h)],
                               heap := (heap s1)(e := None)\<rparr>))
               else if h_in_cache h \<and> refs = 1 then
                 map_option (\<lambda>s2. LRU_Append_lru s2 e) (LRU_Remove s1 e)
               else Some s1)"

text \<open>\<^verbatim>\<open>FinishErase(e)\<close> for \<open>e\<close> not null; the callers test for null.\<close>

definition FinishErase :: "'v LRUCache \<Rightarrow> addr \<Rightarrow> 'v LRUCache option" where
  "FinishErase s e =
     (case heap s e of
        None \<Rightarrow> None
      | Some h \<Rightarrow>
          if \<not> h_in_cache h then None
          else
            (case LRU_Remove s e of
               None \<Rightarrow> None
             | Some s1 \<Rightarrow>
                 let s2 = s1\<lparr>heap := (heap s1)(e \<mapsto> h\<lparr>h_in_cache := False\<rparr>)\<rparr>;
                     s3 = s2\<lparr>usage := usage s2 - h_charge h\<rparr>
                 in Unref s3 e))"

lemma table_set_refs [simp]: "table (set_refs s e n) = table s"
  by (simp add: set_refs_def)

lemma table_LRU_Remove: "LRU_Remove s e = Some s' \<Longrightarrow> table s' = table s"
  by (auto simp add: LRU_Remove_def split: if_splits)

lemma table_Unref: "Unref s e = Some s' \<Longrightarrow> table s' = table s"
  by (auto simp add: Unref_def Let_def LRU_Append_lru_def split: option.splits if_splits
      dest!: table_LRU_Remove)

lemma table_FinishErase: "FinishErase s e = Some s' \<Longrightarrow> table s' = table s"
  by (auto simp add: FinishErase_def Let_def split: option.splits if_splits
      dest!: table_LRU_Remove table_Unref)

lemma table_Remove_length:
  "table_Remove s k h = (Some e, s') \<Longrightarrow> length (table s') < length (table s)"
proof -
  assume a: "table_Remove s k h = (Some e, s')"
  then have f: "find (matches s k h) (table s) = Some e" and s': "s' = s\<lparr>table := remove1 e (table s)\<rparr>"
    by (auto simp add: table_Remove_def table_Lookup_def split: option.splits)
  from f have "e \<in> set (table s)" by (auto simp add: find_Some_iff)
  then have "length (remove1 e (table s)) < length (table s)"
    using length_pos_if_in_set [of e "table s"] by (simp add: length_remove1)
  with s' show ?thesis by simp
qed

text \<open>The body of the loops of \<^verbatim>\<open>Insert\<close> and \<^verbatim>\<open>Prune\<close>: the oldest entry of the
  \<open>lru\<close> list is removed from the table and erased.\<close>

definition erase_oldest :: "'v LRUCache \<Rightarrow> 'v LRUCache option" where
  "erase_oldest s =
     (let old = hd (lru s)
      in case heap s old of
           None \<Rightarrow> None
         | Some h \<Rightarrow>
             if h_refs h \<noteq> 1 then None
             else
               (case table_Remove s (h_key h) (h_hash h) of
                  (None, s1) \<Rightarrow> None
                | (Some e, s1) \<Rightarrow> FinishErase s1 e))"

lemma erase_oldest_length:
  "erase_oldest s = Some s' \<Longrightarrow> length (table s') < length (table s)"
  by (auto simp add: erase_oldest_def Let_def split: option.splits if_splits prod.splits
      dest!: table_FinishErase table_Remove_length)

text \<open>\<^verbatim>\<open>while (usage_ > capacity_ && lru_.next != &lru_)\<close>\<close>

function evict :: "'v LRUCache \<Rightarrow> 'v LRUCache option" where
  "evict s =
     (if usage s > capacity s \<and> lru s \<noteq> [] then
        (case erase_oldest s of None \<Rightarrow> None | Some s' \<Rightarrow> evict s')
      else Some s)"
  by pat_completeness auto
termination
  by (relation "measure (\<lambda>s. length (table s))") (auto dest: erase_oldest_length)

declare evict.simps [simp del]

text \<open>\<^verbatim>\<open>while (lru_.next != &lru_)\<close> of \<^verbatim>\<open>Prune\<close>.\<close>

function Prune :: "'v LRUCache \<Rightarrow> 'v LRUCache option" where
  "Prune s =
     (if lru s \<noteq> [] then
        (case erase_oldest s of None \<Rightarrow> None | Some s' \<Rightarrow> Prune s')
      else Some s)"
  by pat_completeness auto
termination
  by (relation "measure (\<lambda>s. length (table s))") (auto dest: erase_oldest_length)

declare Prune.simps [simp del]

text \<open>\<^verbatim>\<open>Insert\<close> returns the new handle. \<open>mem\<close> tells whether the call gets the memory
  it asks for: \<^verbatim>\<open>malloc\<close> for the handle and, when the table grows, \<^verbatim>\<open>new[]\<close> in
  \<^verbatim>\<open>Resize\<close>. Without it the call has no result: the handle is written through a null
  pointer, or \<^verbatim>\<open>std::bad_alloc\<close> leaves \<^verbatim>\<open>Insert\<close>.\<close>

definition Insert ::
  "'v LRUCache \<Rightarrow> bytes \<Rightarrow> u32 \<Rightarrow> 'v \<Rightarrow> u64 \<Rightarrow> bool \<Rightarrow> (addr \<times> 'v LRUCache) option" where
  "Insert s k hash v charge mem =
     (if \<not> mem then None
      else
      let e = next_addr s;
          h = \<lparr>h_value = v, h_charge = charge, h_key = k, h_in_cache = False, h_refs = 1,
               h_hash = hash\<rparr>;
          s1 = s\<lparr>next_addr := Suc e, heap := (heap s)(e \<mapsto> h)\<rparr>
      in case
           (if capacity s1 > 0 then
              (let h2 = h\<lparr>h_refs := h_refs h + 1, h_in_cache := True\<rparr>;
                   s2 = s1\<lparr>heap := (heap s1)(e \<mapsto> h2)\<rparr>;
                   s3 = LRU_Append_in_use s2 e;
                   s4 = s3\<lparr>usage := usage s3 + charge\<rparr>
               in case table_Insert s4 e h2 of
                    (None, s5) \<Rightarrow> Some s5
                  | (Some old, s5) \<Rightarrow> FinishErase s5 old)
            else Some s1) of
           None \<Rightarrow> None
         | Some s6 \<Rightarrow> map_option (\<lambda>s7. (e, s7)) (evict s6))"

definition Lookup :: "'v LRUCache \<Rightarrow> bytes \<Rightarrow> u32 \<Rightarrow> (addr option \<times> 'v LRUCache) option" where
  "Lookup s k hash =
     (case table_Lookup s k hash of
        None \<Rightarrow> Some (None, s)
      | Some e \<Rightarrow> map_option (\<lambda>s1. (Some e, s1)) (Ref s e))"

definition Release :: "'v LRUCache \<Rightarrow> addr \<Rightarrow> 'v LRUCache option" where
  "Release s handle = Unref s handle"

definition Erase :: "'v LRUCache \<Rightarrow> bytes \<Rightarrow> u32 \<Rightarrow> 'v LRUCache option" where
  "Erase s k hash =
     (case table_Remove s k hash of
        (None, s1) \<Rightarrow> Some s1
      | (Some e, s1) \<Rightarrow> FinishErase s1 e)"

datatype 'v cache_op =
  OpInsert bytes u32 'v u64 bool
| OpLookup bytes u32
| OpRelease addr
| OpErase bytes u32
| OpPrune

fun cache_step :: "'v cache_op \<Rightarrow> 'v LRUCache \<Rightarrow> 'v LRUCache option" where
  "cache_step (OpInsert k h v c mem) s = map_option snd (Insert s k h v c mem)"
| "cache_step (OpLookup k h) s = map_option snd (Lookup s k h)"
| "cache_step (OpRelease a) s = Release s a"
| "cache_step (OpErase k h) s = Erase s k h"
| "cache_step OpPrune s = Prune s"

fun cache_run :: "'v cache_op list \<Rightarrow> 'v LRUCache \<Rightarrow> 'v LRUCache option" where
  "cache_run [] s = Some s"
| "cache_run (x # xs) s = (case cache_step x s of None \<Rightarrow> None | Some s' \<Rightarrow> cache_run xs s')"

definition cache_invariant :: "'v LRUCache \<Rightarrow> bool" where
  "cache_invariant s \<longleftrightarrow>
     (\<forall>a\<in>set (table s). count_list (lru s @ in_use s) a = 1) \<and>
     (\<forall>a\<in>set (lru s). \<exists>h. heap s a = Some h \<and> h_refs h = 1) \<and>
     (\<forall>a\<in>set (in_use s). \<exists>h. heap s a = Some h \<and> 2 \<le> h_refs h) \<and>
     (\<forall>a\<in>dom (heap s). a \<notin> set (lru s) \<and> a \<notin> set (in_use s) \<longrightarrow> a \<notin> set (table s))"

definition lists_ok :: "'v LRUCache \<Rightarrow> bool" where
  "lists_ok s \<longleftrightarrow>
     distinct (lru s) \<and> distinct (in_use s) \<and> set (lru s) \<inter> set (in_use s) = {} \<and>
     distinct (table s) \<and> set (table s) = set (lru s) \<union> set (in_use s)"

definition refs_ok :: "'v LRUCache \<Rightarrow> bool" where
  "refs_ok s \<longleftrightarrow>
     (\<forall>a h. heap s a = Some h \<longrightarrow> h_refs h \<noteq> 0 \<and> a < next_addr s) \<and>
     (\<forall>a\<in>set (lru s). \<exists>h. heap s a = Some h \<and> h_in_cache h \<and> h_refs h = 1) \<and>
     (\<forall>a\<in>set (in_use s). \<exists>h. heap s a = Some h \<and> h_in_cache h \<and> 2 \<le> h_refs h)"

definition in_cache_ok :: "'v LRUCache \<Rightarrow> bool" where
  "in_cache_ok s \<longleftrightarrow>
     (\<forall>a h. heap s a = Some h \<longrightarrow> h_in_cache h \<longrightarrow> a \<in> set (lru s) \<or> a \<in> set (in_use s))"

definition keys_ok :: "'v LRUCache \<Rightarrow> bool" where
  "keys_ok s \<longleftrightarrow>
     (\<forall>a\<in>set (table s). \<forall>b\<in>set (table s). \<forall>ha hb.
        heap s a = Some ha \<longrightarrow> heap s b = Some hb \<longrightarrow>
        h_key ha = h_key hb \<longrightarrow> h_hash ha = h_hash hb \<longrightarrow> a = b)"

definition cache_wf :: "'v LRUCache \<Rightarrow> bool" where
  "cache_wf s \<longleftrightarrow> lists_ok s \<and> refs_ok s \<and> in_cache_ok s \<and> keys_ok s"

text \<open>The state between the removal of \<open>e\<close> from the table and \<^verbatim>\<open>FinishErase(e)\<close>.\<close>

definition pending :: "'v LRUCache \<Rightarrow> addr \<Rightarrow> bool" where
  "pending s e \<longleftrightarrow>
     distinct (lru s) \<and> distinct (in_use s) \<and> set (lru s) \<inter> set (in_use s) = {} \<and>
     distinct (table s) \<and> e \<notin> set (table s) \<and>
     insert e (set (table s)) = set (lru s) \<union> set (in_use s) \<and>
     refs_ok s \<and> in_cache_ok s \<and> keys_ok s"

text \<open>The state of \<^verbatim>\<open>Insert\<close> before \<^verbatim>\<open>table_.Insert(e)\<close>, for a cache with
  \<open>capacity > 0\<close>.\<close>

definition linked :: "'v LRUCache \<Rightarrow> bytes \<Rightarrow> u32 \<Rightarrow> 'v \<Rightarrow> u64 \<Rightarrow> 'v LRUCache" where
  "linked s k hash v c =
     s\<lparr>next_addr := Suc (next_addr s),
       heap := (heap s)(next_addr s \<mapsto>
         \<lparr>h_value = v, h_charge = c, h_key = k, h_in_cache = True, h_refs = 2,
          h_hash = hash\<rparr>),
       in_use := in_use s @ [next_addr s],
       usage := usage s + c\<rparr>"

text \<open>The calls a client may make in state \<open>s\<close>. \<^verbatim>\<open>Release\<close> needs a handle that is
  allocated and still referenced by a client, so it is not on the \<open>lru\<close> list;
  \<^verbatim>\<open>Lookup\<close> must not find an entry whose 32-bit reference count is at its maximum;
  \<^verbatim>\<open>Insert\<close> must get the memory it asks for.\<close>

fun op_allowed :: "'v LRUCache \<Rightarrow> 'v cache_op \<Rightarrow> bool" where
  "op_allowed s (OpRelease a) = (heap s a \<noteq> None \<and> a \<notin> set (lru s))"
| "op_allowed s (OpLookup k h) =
     (case table_Lookup s k h of
        None \<Rightarrow> True
      | Some e \<Rightarrow> (case heap s e of None \<Rightarrow> True | Some e1 \<Rightarrow> h_refs e1 \<noteq> 0xFFFFFFFF))"
| "op_allowed s (OpInsert k h v c mem) = mem"
| "op_allowed s (OpErase k h) = True"
| "op_allowed s OpPrune = True"

fun allowed_run :: "'v cache_op list \<Rightarrow> 'v LRUCache \<Rightarrow> bool" where
  "allowed_run [] s = True"
| "allowed_run (x # xs) s =
     (op_allowed s x \<and>
      (case cache_step x s of None \<Rightarrow> True | Some s' \<Rightarrow> allowed_run xs s'))"

definition sample_ops :: "nat cache_op list" where
  "sample_ops =
     [OpInsert [1] 1 10 1 True, OpRelease 0, OpInsert [2] 2 20 1 True, OpLookup [2] 2, OpErase [2] 2,
      OpRelease 1, OpRelease 1, OpPrune]"

text \<open>A shard of capacity 1 holding one entry, the handle at address 0, with reference
  count \<open>r\<close> on the \<open>in_use\<close> list.\<close>

definition one_entry :: "u32 \<Rightarrow> nat LRUCache" where
  "one_entry r =
     \<lparr>capacity = 1, usage = 1, lru = [], in_use = [0], table = [0],
      heap = [0 \<mapsto> \<lparr>h_value = 10, h_charge = 1, h_key = [1], h_in_cache = True, h_refs = r,
                     h_hash = 1\<rparr>],
      next_addr = 1, deleted = []\<rparr>"

section \<open>Sharded cache (util/cache.cc)\<close>

definition kNumShardBits :: nat where
  "kNumShardBits = 4"

definition kNumShards :: nat where
  "kNumShards = 2 ^ kNumShardBits"

text \<open>\<^verbatim>\<open>LRUCache shard_[kNumShards]\<close>: the array is a function of the index; only the
  indices below \<open>kNumShards\<close> are ever used, as \<open>Shard\<close> keeps the top four bits of a
  hash.\<close>

record 'v ShardedLRUCache =
  shard :: "nat \<Rightarrow> 'v LRUCache"
  last_id :: u64

text \<open>A \<^verbatim>\<open>Cache::Handle*\<close> is the address of an \<^verbatim>\<open>LRUHandle\<close>; the heaps of the
  shards are separate in the model, so a handle names its shard too.\<close>

type_synonym handle = "nat \<times> addr"

definition Shard :: "u32 \<Rightarrow> nat" where
  "Shard hash = unat (drop_bit (32 - kNumShardBits) hash)"

text \<open>\<^verbatim>\<open>NewLRUCache(capacity)\<close>, the constructor of \<^verbatim>\<open>ShardedLRUCache\<close>.\<close>

definition NewLRUCache :: "u64 \<Rightarrow> 'v ShardedLRUCache" where
  "NewLRUCache capacity0 =
     (let per_shard = (capacity0 + (of_nat kNumShards - 1)) div of_nat kNumShards
      in \<lparr>shard = (\<lambda>s. LRUCache_new per_shard), last_id = 0\<rparr>)"

text \<open>Modelled from the spec: \<^verbatim>\<open>Hash(s.data(), s.size(), 0)\<close> of util/hash.cc is the
  parameter \<open>HashSlice\<close> of the functions below.\<close>

definition Cache_Insert ::
  "(bytes \<Rightarrow> u32) \<Rightarrow> 'v ShardedLRUCache \<Rightarrow> bytes \<Rightarrow> 'v \<Rightarrow> u64 \<Rightarrow> bool \<Rightarrow>
   (handle \<times> 'v ShardedLRUCache) option" where
  "Cache_Insert HashSlice c k v charge mem =
     (let hash = HashSlice k; i = Shard hash
      in case Insert (shard c i) k hash v charge mem of
           None \<Rightarrow> None
         | Some (e, s') \<Rightarrow> Some ((i, e), c\<lparr>shard := (shard c)(i := s')\<rparr>))"

definition Cache_Lookup ::
  "(bytes \<Rightarrow> u32) \<Rightarrow> 'v ShardedLRUCache \<Rightarrow> bytes \<Rightarrow>
   (handle option \<times> 'v ShardedLRUCache) option" where
  "Cache_Lookup HashSlice c k =
     (let hash = HashSlice k; i = Shard hash
      in case Lookup (shard c i) k hash of
           None \<Rightarrow> None
         | Some (r, s') \<Rightarrow> Some (map_option (Pair i) r, c\<lparr>shard := (shard c)(i := s')\<rparr>))"

section \<open>Table cache (db/filename.cc, db/table_cache.cc)\<close>

text \<open>\<^verbatim>\<open>EncodeFixed64\<close> of util/coding.h: eight bytes, the low byte first.\<close>

definition EncodeFixed64 :: "u64 \<Rightarrow> bytes" where
  "EncodeFixed64 v =
     [ucast v, ucast (drop_bit 8 v), ucast (drop_bit 16 v), ucast (drop_bit 24 v),
      ucast (drop_bit 32 v), ucast (drop_bit 40 v), ucast (drop_bit 48 v),
      ucast (drop_bit 56 v)]"

text \<open>The conversion \<^verbatim>\<open>%06llu\<close> of \<^verbatim>\<open>snprintf\<close>: decimal, filled with zeros to six
  digits. The buffer of 100 characters is never too short.\<close>

definition printf_06llu :: "u64 \<Rightarrow> string" where
  "printf_06llu number =
     (let d = decimal (unat number) in replicate (6 - length d) (CHR ''0'') @ d)"

definition MakeFileName :: "string \<Rightarrow> u64 \<Rightarrow> string \<Rightarrow> string" where
  "MakeFileName dbname0 number suffix = dbname0 @ ''/'' @ printf_06llu number @ ''.'' @ suffix"

text \<open>\<open>None\<close> is the failed \<^verbatim>\<open>assert(number > 0)\<close>.\<close>

definition TableFileName :: "string \<Rightarrow> u64 \<Rightarrow> string option" where
  "TableFileName dbname0 number =
     (if \<not> number > 0 then None else Some (MakeFileName dbname0 number ''ldb''))"

definition SSTTableFileName :: "string \<Rightarrow> u64 \<Rightarrow> string option" where
  "SSTTableFileName dbname0 number =
     (if \<not> number > 0 then None else Some (MakeFileName dbname0 number ''sst''))"

text \<open>Modelled from the spec: \<^verbatim>\<open>Status\<close> (include/leveldb/status.h) by its codes.\<close>

datatype StatusCode = kOk | kNotFound | kCorruption | kNotSupported | kInvalidArgument | kIOError

definition Status_ok :: "StatusCode \<Rightarrow> bool" where
  "Status_ok s \<longleftrightarrow> s = kOk"

text \<open>Modelled from the spec: the environment. \<^verbatim>\<open>Env::NewRandomAccessFile(fname, &file)\<close>
  returns a status and stores a file or \<^verbatim>\<open>nullptr\<close> in \<^verbatim>\<open>*file\<close>.
  \<^verbatim>\<open>Table::Open(options, file, file_size, &table)\<close> of table/table.cc is the parameter
  \<open>Table_Open\<close> of \<open>FindTable\<close>: it returns a status and stores a table or \<^verbatim>\<open>nullptr\<close>
  in \<^verbatim>\<open>*table\<close>.\<close>

record 'f Env =
  NewRandomAccessFile :: "string \<Rightarrow> StatusCode \<times> 'f option"

record ('f, 't) TableAndFile =
  tf_file :: "'f option"
  tf_table :: "'t option"

text \<open>\<^verbatim>\<open>env_\<close> and \<^verbatim>\<open>options_\<close> are parameters of \<open>FindTable\<close>.\<close>

record ('f, 't) TableCache =
  dbname :: string
  cache :: "('f, 't) TableAndFile ShardedLRUCache"

text \<open>The constructor; \<^verbatim>\<open>int entries\<close> is converted to \<^verbatim>\<open>size_t\<close> by sign extension.\<close>

definition TableCache_new :: "string \<Rightarrow> u32 \<Rightarrow> ('f, 't) TableCache" where
  "TableCache_new dbname0 entries0 = \<lparr>dbname = dbname0, cache = NewLRUCache (scast entries0)\<rparr>"

text \<open>\<^verbatim>\<open>TableCache::FindTable\<close>. The first component of the result lists the names
  passed to \<^verbatim>\<open>NewRandomAccessFile\<close>, in the order of the calls. The second is \<open>None\<close> when
  an assertion fails, and else the status returned, \<^verbatim>\<open>*handle\<close> and the table cache
  after the call. \<open>mem\<close> tells whether \<^verbatim>\<open>new TableAndFile\<close> and \<^verbatim>\<open>Cache::Insert\<close> get
  the memory they ask for. \<^verbatim>\<open>delete file\<close> leaves no trace in the model.\<close>

definition FindTable ::
  "'f Env \<Rightarrow> ('f option \<Rightarrow> u64 \<Rightarrow> StatusCode \<times> 't option) \<Rightarrow> (bytes \<Rightarrow> u32) \<Rightarrow> bool \<Rightarrow>
   ('f, 't) TableCache \<Rightarrow> u64 \<Rightarrow> u64 \<Rightarrow>
   string list \<times> (StatusCode \<times> handle option \<times> ('f, 't) TableCache) option" where
  "FindTable env Table_Open HashSlice mem tc file_number file_size =
     (let k = EncodeFixed64 file_number
      in case Cache_Lookup HashSlice (cache tc) k of
           None \<Rightarrow> ([], None)
         | Some (Some h, c1) \<Rightarrow> ([], Some (kOk, Some h, tc\<lparr>cache := c1\<rparr>))
         | Some (None, c1) \<Rightarrow>
             (case TableFileName (dbname tc) file_number of
                None \<Rightarrow> ([], None)
              | Some fname \<Rightarrow>
                  let (s1, file1) = NewRandomAccessFile env fname
                  in case
                       (if \<not> Status_ok s1 then
                          (case SSTTableFileName (dbname tc) file_number of
                             None \<Rightarrow> None
                           | Some old_fname \<Rightarrow>
                               let (s2, file2) = NewRandomAccessFile env old_fname
                               in Some ([fname, old_fname], if Status_ok s2 then kOk else s1, file2))
                        else Some ([fname], s1, file1)) of
                       None \<Rightarrow> ([fname], None)
                     | Some (opened, s, file) \<Rightarrow>
                         let (s', tbl) = (if Status_ok s then Table_Open file file_size else (s, None))
                         in if \<not> Status_ok s' then
                              (if tbl \<noteq> None then (opened, None)
                               else (opened, Some (s', None, tc\<lparr>cache := c1\<rparr>)))
                            else
                              (case Cache_Insert HashSlice c1 k
                                      \<lparr>tf_file = file, tf_table = tbl\<rparr> 1 mem of
                                 None \<Rightarrow> (opened, None)
                               | Some (h, c2) \<Rightarrow>
                                   (opened, Some (s', Some h, tc\<lparr>cache := c2\<rparr>)))))"

text \<open>A hash for the examples: the first byte of the key.\<close>

definition sample_hash :: "bytes \<Rightarrow> u32" where
  "sample_hash k = (case k of [] \<Rightarrow> 0 | b # bs \<Rightarrow> ucast b)"

text \<open>Environments in which only the named file can be opened, and one without files.\<close>

definition only_file :: "string \<Rightarrow> nat Env" where
  "only_file name =
     \<lparr>NewRandomAccessFile = (\<lambda>fname. if fname = name then (kOk, Some 1) else (kNotFound, None))\<rparr>"

definition no_files :: "nat Env" where
  "no_files = \<lparr>NewRandomAccessFile = (\<lambda>fname. (kIOError, None))\<rparr>"

definition good_table :: "nat option \<Rightarrow> u64 \<Rightarrow> StatusCode \<times> nat option" where
  "good_table f file_size = (kOk, Some 5)"

definition bad_table :: "nat option \<Rightarrow> u64 \<Rightarrow> StatusCode \<times> nat option" where
  "bad_table f file_size = (kCorruption, None)"

text \<open>The table cache of 16 entries after table 3 has been found and cached.\<close>

definition warm_cache :: "(nat, nat) TableCache" where
  "warm_cache =
     (case snd (FindTable (only_file ''db/000003.ldb'') good_table sample_hash True
                  (TableCache_new ''db'' 16) 3 100) of
        None \<Rightarrow> TableCache_new ''db'' 16
      | Some (s, h, tc) \<Rightarrow> tc)"

section \<open>CRC masking: theorems\<close>

lemma mod32_low: "n < 17 \<Longrightarrow> (n + 15) mod 32 = n + (15::nat)"
  by simp

lemma mod32_high: "17 \<le> n \<Longrightarrow> n < 32 \<Longrightarrow> (n + 15) mod 32 = n - (17::nat)"
  by (simp add: mod_if)

lemma mod32_low': "n < 15 \<Longrightarrow> (n + 17) mod 32 = n + (17::nat)"
  by simp

lemma mod32_high': "15 \<le> n \<Longrightarrow> n < 32 \<Longrightarrow> (n + 17) mod 32 = n - (15::nat)"
  by (simp add: mod_if)

lemma rotr15_shifts: "(drop_bit 15 c) OR (push_bit 17 c) = word_rotr 15 (c :: u32)"
proof (rule bit_word_eqI)
  fix n :: nat
  assume n: "n < LENGTH(32)"
  show "bit ((drop_bit 15 c) OR (push_bit 17 c)) n = bit (word_rotr 15 c) n"
  proof (cases "n < 17")
    case True
    then show ?thesis using n
      by (simp add: bit_simps mod32_low add.commute)
  next
    case False
    then have "\<not> bit c (15 + n)"
      by (auto dest: bit_imp_le_length)
    with False n show ?thesis
      by (simp add: bit_simps mod32_high add.commute)
  qed
qed

lemma rotl15_shifts: "(drop_bit 17 c) OR (push_bit 15 c) = word_rotr 17 (c :: u32)"
proof (rule bit_word_eqI)
  fix n :: nat
  assume n: "n < LENGTH(32)"
  show "bit ((drop_bit 17 c) OR (push_bit 15 c)) n = bit (word_rotr 17 c) n"
  proof (cases "n < 15")
    case True
    then show ?thesis using n
      by (simp add: bit_simps mod32_low' add.commute)
  next
    case False
    then have "\<not> bit c (17 + n)"
      by (auto dest: bit_imp_le_length)
    with False n show ?thesis
      by (simp add: bit_simps mod32_high' add.commute)
  qed
qed

lemma rot_back: "word_rotr 17 (word_rotr 15 c) = (c :: u32)"
proof (rule bit_word_eqI)
  fix n :: nat
  assume "n < LENGTH(32)"
  then show "bit (word_rotr 17 (word_rotr 15 c)) n = bit c n"
    by (simp add: word_rotr_word_rotr_eq bit_word_rotr_iff)
qed

text \<open>C2, first half: \<open>Mask\<close> is the rotation to the right by 15 bits plus
  \<open>0xa282ead8\<close>, in arithmetic modulo \<open>2 ^ 32\<close>.\<close>

lemma Mask_is_rotation: "Mask c = rot_right c 15 + 0xa282ead8"
  by (simp add: Mask_def rot_right_def kMaskDelta_def rotr15_shifts)

text \<open>Claim C2: for every 32-bit value \<open>c\<close>, \<open>Unmask (Mask c) = c\<close>, where
  \<open>Mask c\<close> is the rotation of \<open>c\<close> to the right by 15 bits plus \<open>0xa282ead8\<close>,
  all arithmetic wrapping modulo \<open>2 ^ 32\<close>.\<close>

theorem Unmask_Mask:
  "Unmask (Mask c) = c \<and> Mask c = rot_right c 15 + 0xa282ead8"
proof -
  have "Unmask (Mask c) = c"
    by (simp add: Unmask_def Mask_def Let_def rotr15_shifts rotl15_shifts rot_back)
  moreover have "Mask c = rot_right c 15 + 0xa282ead8"
    by (rule Mask_is_rotation)
  ultimately show ?thesis by simp
qed

section \<open>Arena: theorems\<close>

lemma used_arena_reached:
  "Allocate_all store_1T Arena_new [1000, 1000, 1000, 1000] =
     Inr ([Ptr 0 0, Ptr 0 1000, Ptr 0 2000, Ptr 0 3000], used_arena)"
  by (simp add: Allocate_def AllocateFallback_def AllocateNewBlock_def Arena_new_def
      Arena_kBlockSize_def store_1T_def used_arena_def Let_def)

text \<open>Claim C8 as stated fails: after a one-byte allocation the current block has 4095
  bytes left, and a request of 2000 bytes (more than 1024) is served from that block by
  the bump pointer; no block is pushed and the bump-pointer state changes.\<close>

theorem Allocate_large_counterexample:
  "Allocate_all store_1T Arena_new [1, 2000] =
     Inr ([Ptr 0 0, Ptr 0 1],
           \<lparr>alloc_ptr = Ptr 0 2001, alloc_bytes_remaining = 2095,
            blocks = [4096], memory_usage = 4104\<rparr>)
   \<and> (1024 :: u64) < 2000
   \<and> \<not> own_exact_block store_1T
         \<lparr>alloc_ptr = Ptr 0 1, alloc_bytes_remaining = 4095,
          blocks = [4096], memory_usage = 4104\<rparr> 2000"
  by (simp add: Allocate_def AllocateFallback_def AllocateNewBlock_def Arena_new_def
      Arena_kBlockSize_def own_exact_block_def Let_def store_1T_def)

text \<open>Claim C8, amended: a request of more than 1024 bytes that does not fit into the
  bytes remaining in the current block is served by \<^verbatim>\<open>new char[bytes]\<close>. If the free
  store serves the block and the vector \<^verbatim>\<open>blocks_\<close> can grow, \<^verbatim>\<open>Allocate\<close> returns the
  start of that fresh block of exactly the requested size, and the bump pointer and the
  remaining-byte counter are unchanged; otherwise \<^verbatim>\<open>Allocate\<close> returns nothing:
  \<^verbatim>\<open>std::bad_alloc\<close> leaves it.\<close>

theorem Allocate_large_own_block:
  assumes big: "1024 < bytes" and nofit: "alloc_bytes_remaining a < bytes"
  shows "Allocate fs a bytes =
     (if new_char_returns fs bytes \<and> push_back_returns fs (length (blocks a))
      then Inr (Ptr (length (blocks a)) 0,
                a\<lparr>blocks := blocks a @ [bytes], memory_usage := memory_usage a + (bytes + 8)\<rparr>)
      else Inl BadAlloc)"
proof -
  from big have pos: "bytes > 0"
    by (auto simp add: word_less_nat_alt)
  from nofit have "\<not> bytes \<le> alloc_bytes_remaining a" by simp
  with pos big show ?thesis
    by (simp add: Allocate_def AllocateFallback_def AllocateNewBlock_def Arena_kBlockSize_def)
qed

theorem Allocate_large_own_block_witness:
  "(1024 :: u64) < 2000 \<and> alloc_bytes_remaining used_arena < 2000 \<and>
   Allocate store_1T used_arena 2000 =
     Inr (Ptr 1 0,
          \<lparr>alloc_ptr = Ptr 0 4000, alloc_bytes_remaining = 96, blocks = [4096, 2000],
           memory_usage = 6112\<rparr>) \<and>
   own_exact_block store_1T used_arena 2000 \<and>
   Allocate store_1T used_arena 9223372036854775808 = Inl BadAlloc"
  using Allocate_large_own_block [of 2000 used_arena store_1T]
    Allocate_large_own_block [of 9223372036854775808 used_arena store_1T]
  by (simp add: used_arena_def store_1T_def own_exact_block_def)

section \<open>Bloom filter policy: the number of probes\<close>

lemma bit_length_le: "n < 2 ^ k \<Longrightarrow> bit_length n \<le> k"
proof (induction k arbitrary: n)
  case 0
  then show ?case by (simp add: bit_length.simps)
next
  case (Suc k)
  show ?case
  proof (cases "n = 0")
    case True
    then show ?thesis by (simp add: bit_length.simps)
  next
    case False
    from Suc.prems have "n div 2 < 2 ^ k" by simp
    then have "bit_length (n div 2) \<le> k" by (rule Suc.IH)
    with False show ?thesis by (subst bit_length.simps) simp
  qed
qed

lemma bit_length_lower: "n \<noteq> 0 \<Longrightarrow> 2 ^ (bit_length n - 1) \<le> n"
proof (induction n rule: bit_length.induct)
  case (1 n)
  show ?case
  proof (cases "n div 2 = 0")
    case True
    with 1 have "n = 1" by (simp add: div_eq_0_iff) 
    then show ?thesis by (simp add: bit_length.simps)
  next
    case False
    with 1 have ih: "2 ^ (bit_length (n div 2) - 1) \<le> n div 2" by simp
    from False have pos: "bit_length (n div 2) \<noteq> 0" by (subst bit_length.simps) simp
    have "bit_length n = Suc (bit_length (n div 2))" using 1(2) by (subst bit_length.simps) simp
    then have "2 ^ (bit_length n - 1) = 2 * 2 ^ (bit_length (n div 2) - 1)" 
      using pos by (cases "bit_length (n div 2)") simp_all
    also have "\<dots> \<le> 2 * (n div 2)" using ih by simp
    also have "\<dots> \<le> n" by simp
    finally show ?thesis .
  qed
qed

lemma clear_low_bits: "s \<le> 53 \<Longrightarrow> (n div 2 ^ s * 2 ^ s) div 2 ^ 53 = (n::nat) div 2 ^ 53"
proof -
  assume s: "s \<le> 53"
  have "(n div 2 ^ s * 2 ^ s) div 2 ^ 53 = drop_bit 53 (push_bit s (drop_bit s n))"
    by (simp add: drop_bit_eq_div push_bit_eq_mult)
  also have "\<dots> = drop_bit (53 - s) (drop_bit s n)"
    using s by (simp add: drop_bit_push_bit)
  also have "\<dots> = drop_bit 53 n"
    using s by (simp add: drop_bit_drop_bit)
  finally show ?thesis by (simp add: drop_bit_eq_div)
qed

lemma round_to_double_lower:
  assumes "n < 2 ^ 106"
  shows "n div 2 ^ 53 \<le> round_to_double n div 2 ^ 53"
proof (cases "bit_length n \<le> 53")
  case True
  then show ?thesis by (simp add: round_to_double_def)
next
  case False
  define s where "s = bit_length n - 53"
  from assms have "bit_length n \<le> 106" by (rule bit_length_le)
  then have s: "s \<le> 53" by (simp add: s_def)
  have "n div 2 ^ s * 2 ^ s \<le> round_to_double n"
    using False by (simp add: round_to_double_def Let_def s_def)
  then have "(n div 2 ^ s * 2 ^ s) div 2 ^ 53 \<le> round_to_double n div 2 ^ 53"
    by (rule div_le_mono)
  moreover have "(n div 2 ^ s * 2 ^ s) div 2 ^ 53 = n div 2 ^ 53"
    using s by (rule clear_low_bits)
  ultimately show ?thesis by (simp only:)
qed

lemma round_to_double_upper: "round_to_double n \<le> 2 * n"
proof (cases "bit_length n \<le> 53")
  case True
  then show ?thesis by (simp add: round_to_double_def)
next
  case False
  define s where "s = bit_length n - 53"
  have n0: "n \<noteq> 0"
  proof
    assume "n = 0"
    then have "bit_length n = 0" by (simp add: bit_length.simps)
    with False show False by simp
  qed
  then have low: "2 ^ (bit_length n - 1) \<le> n" by (rule bit_length_lower)
  have "(2::nat) ^ s \<le> 2 ^ (bit_length n - 1)"
    by (rule power_increasing) (simp_all add: s_def)
  from this low have ps: "2 ^ s \<le> n" by (rule order_trans)
  have "round_to_double n \<le> (n div 2 ^ s + 1) * 2 ^ s"
    using False by (simp add: round_to_double_def Let_def s_def)
  also have "\<dots> = n div 2 ^ s * 2 ^ s + 2 ^ s" by (simp add: algebra_simps)
  also have "\<dots> \<le> n + n" using ps by (intro add_mono) simp_all
  finally show ?thesis by simp
qed

lemma small_products_list: "list_all product_exact [0..<44]"
  by (simp add: upt_conv_Cons product_exact_def round_to_double_def double_069_def bit_length.simps Let_def)

lemma small_products:
  assumes "m < 44"
  shows "round_to_double (m * double_069) div 2 ^ 53 = 69 * m div 100"
proof -
  from assms have "m \<in> set [0..<44]" by simp
  with small_products_list have "product_exact m"
    unfolding list_all_iff by blast
  then show ?thesis by (simp only: product_exact_def)
qed

lemma large_products:
  assumes "44 \<le> m" and "m < 2 ^ 31"
  shows "30 \<le> round_to_double (m * double_069) div 2 ^ 53"
proof -
  have "m * double_069 < 2 ^ 31 * 2 ^ 53"
    using assms(2) by (intro mult_strict_mono) (simp_all add: double_069_def)
  then have "m * double_069 < 2 ^ 106" by simp
  then have "m * double_069 div 2 ^ 53 \<le> round_to_double (m * double_069) div 2 ^ 53"
    by (rule round_to_double_lower)
  moreover have "44 * double_069 div 2 ^ 53 \<le> m * double_069 div 2 ^ 53"
    using assms(1) by (intro div_le_mono mult_le_mono1)
  moreover have "44 * double_069 div 2 ^ 53 = 30"
    by (simp add: double_069_def)
  ultimately show ?thesis by simp
qed

lemma products_bounded:
  assumes "m < 2 ^ 31"
  shows "round_to_double (m * double_069) div 2 ^ 53 < 2 ^ 32"
proof -
  have "m * double_069 < 2 ^ 31 * 2 ^ 53"
    using assms by (intro mult_strict_mono) (simp_all add: double_069_def)
  moreover have "round_to_double (m * double_069) \<le> 2 * (m * double_069)"
    by (rule round_to_double_upper)
  ultimately have "round_to_double (m * double_069) < 2 ^ 32 * 2 ^ 53" by simp
  then show ?thesis by (simp add: less_mult_imp_div_less)
qed

lemma floor_069: "\<lfloor>real_of_int x * (69 / 100)\<rfloor> = 69 * x div 100"
proof -
  have "real_of_int x * (69 / 100) = real_of_int (69 * x) / real_of_int 100" by simp
  then show ?thesis by (simp only: floor_divide_of_int_eq)
qed

lemma clamp_u64:
  assumes "k0 < 2 ^ 32"
  shows "uint (let k1 = (if (of_nat k0 :: u64) < 1 then 1 else (of_nat k0 :: u64));
                   k2 = (if k1 > 30 then 30 else k1) in k2)
         = max 1 (min 30 (int k0))"
proof -
  from assms have "k0 < 2 ^ 64"
    by (rule less_le_trans) simp
  then have u: "unat (of_nat k0 :: u64) = k0"
    by (simp add: unat_of_nat)
  then have "uint (of_nat k0 :: u64) = int k0"
    by (simp add: uint_nat)
  then show ?thesis
    using u by (auto simp add: Let_def word_less_nat_alt)
qed


lemma NewBloomFilterPolicy_value:
  assumes "0 \<le> sint b"
  shows "\<exists>p. NewBloomFilterPolicy b = Some p \<and> bloom_bits_per_key p = scast b \<and>
             uint (bloom_k p) = max 1 (min 30 \<lfloor>real_of_int (sint b) * (69 / 100)\<rfloor>)"
proof -
  define m where "m = nat (sint b)"
  have "sint b < 2 ^ 31"
    using sint_lt [of b] by simp
  with assms have m: "m < 2 ^ 31" and sb: "sint b = int m"
    by (simp_all add: m_def)
  define k0 where "k0 = round_to_double (m * double_069) div 2 ^ 53"
  from m have k0: "k0 < 2 ^ 32"
    unfolding k0_def by (rule products_bounded)
  have conv: "times_069_to_size_t (sint b) = Some (of_nat k0)"
    using assms by (simp add: times_069_to_size_t_def k0_def m_def)
  have "int k0 = 69 * int m div 100 \<or> (30 \<le> k0 \<and> 30 \<le> 69 * int m div 100)"
  proof (cases "m < 44")
    case True
    then have "k0 = 69 * m div 100"
      unfolding k0_def by (rule small_products)
    then show ?thesis by (simp add: zdiv_int)
  next
    case False
    then have "30 \<le> k0"
      unfolding k0_def using m by (intro large_products) simp_all
    moreover from False have "30 \<le> 69 * int m div 100" by simp
    ultimately show ?thesis by simp
  qed
  then have "max 1 (min 30 (int k0)) = max 1 (min 30 (69 * int m div 100))"
    by auto
  then have "uint (let k1 = (if (of_nat k0 :: u64) < 1 then 1 else (of_nat k0 :: u64));
                       k2 = (if k1 > 30 then 30 else k1) in k2)
             = max 1 (min 30 \<lfloor>real_of_int (sint b) * (69 / 100)\<rfloor>)"
    using clamp_u64 [OF k0] by (simp only: floor_069 sb)
  then show ?thesis
    by (simp add: NewBloomFilterPolicy_def conv Let_def)
qed


lemma exp_9_13: "exp (9 / 13 :: real) < 2"
proof -
  obtain t :: real where t: "\<bar>t\<bar> \<le> \<bar>9 / 13\<bar>"
    and e: "exp (9 / 13) = (\<Sum>m<6. (9 / 13) ^ m / fact m) + exp t / fact 6 * (9 / 13) ^ 6"
    using Maclaurin_exp_le [of "9 / 13" 6] by blast
  from t have "t \<le> 1" by simp
  then have "exp t \<le> exp 1" by simp
  also have "\<dots> \<le> 3" by (rule exp_le)
  finally have "exp t / fact 6 * (9 / 13) ^ 6 \<le> 3 / fact 6 * (9 / 13) ^ 6"
    by (intro mult_right_mono divide_right_mono) simp_all
  with e have "exp (9 / 13 :: real) \<le> (\<Sum>m<6. (9 / 13) ^ m / fact m) + 3 / fact 6 * (9 / 13) ^ 6"
    by simp
  also have "\<dots> < 2"
    by (simp add: lessThan_Suc numeral_eq_Suc fact_numeral power_numeral_reduce)
  finally show ?thesis .
qed

lemma ln2_gt: "9 / 13 < ln (2 :: real)"
proof -
  have "ln (exp (9 / 13 :: real)) < ln 2"
    using exp_9_13 by (subst ln_less_cancel_iff) simp_all
  then show ?thesis by simp
qed

lemma ln2_lt: "ln (2 :: real) < 10 / 13"
proof -
  have "1 + (10 / 13) + (10 / 13)\<^sup>2 / 2 \<le> exp (10 / 13 :: real)"
    by (rule exp_lower_Taylor_quadratic) simp
  moreover have "(2 :: real) < 1 + (10 / 13) + (10 / 13)\<^sup>2 / 2"
    by (simp add: power2_eq_square)
  ultimately have "2 < exp (10 / 13 :: real)" by linarith
  then have "ln 2 < ln (exp (10 / 13 :: real))"
    by (subst ln_less_cancel_iff) simp_all
  then show ?thesis by simp
qed

lemma spec_probes_13: "spec_probes 13 = 9"
proof -
  have "9 \<le> 13 * ln (2 :: real)" "13 * ln (2 :: real) < 10"
    using ln2_gt ln2_lt by simp_all
  then have "\<lfloor>13 * ln (2 :: real)\<rfloor> = 9"
    by (simp add: floor_eq_iff)
  then show ?thesis by (simp add: spec_probes_def)
qed

text \<open>Claim C7 as stated fails: for \<open>bits_per_key = 13\<close> the policy probes 8 times
  (\<open>13 * 0.69 = 8.97\<close>), while \<open>\<lfloor>13 * ln 2\<rfloor> = 9\<close>.\<close>

theorem NewBloomFilterPolicy_probes_counterexample:
  "NewBloomFilterPolicy 13 = Some \<lparr>bloom_bits_per_key = 13, bloom_k = 8\<rparr> \<and>
   spec_probes (sint (13 :: u32)) = 9"
proof -
  have "NewBloomFilterPolicy 13 = Some \<lparr>bloom_bits_per_key = 13, bloom_k = 8\<rparr>"
    by (simp add: NewBloomFilterPolicy_def times_069_to_size_t_def round_to_double_def
        double_069_def bit_length.simps Let_def)
  then show ?thesis by (simp add: spec_probes_13)
qed

text \<open>Claim C7, amended: for every \<open>bits_per_key \<ge> 0\<close> the number of probes is
  \<open>\<lfloor>bits_per_key * 0.69\<rfloor>\<close> (the constant \<open>0.69\<close> the code uses for \<open>ln 2\<close>), clamped
  to the interval from 1 to 30.\<close>

theorem NewBloomFilterPolicy_probes:
  "0 \<le> sint b \<Longrightarrow>
   \<exists>p. NewBloomFilterPolicy b = Some p \<and> bloom_bits_per_key p = scast b \<and>
       uint (bloom_k p) = max 1 (min 30 \<lfloor>real_of_int (sint b) * (69 / 100)\<rfloor>)"
  by (rule NewBloomFilterPolicy_value)

theorem NewBloomFilterPolicy_probes_witness:
  "0 \<le> sint (10 :: u32) \<and>
   (\<exists>p. NewBloomFilterPolicy 10 = Some p \<and> bloom_bits_per_key p = scast (10 :: u32) \<and>
        uint (bloom_k p) = max 1 (min 30 \<lfloor>real_of_int (sint (10 :: u32)) * (69 / 100)\<rfloor>))"
  using NewBloomFilterPolicy_probes [of 10] by simp

section \<open>Bloom filter: no false negatives\<close>

lemma unat_bitpos:
  "unat (ucast ((ucast (h :: u32) :: u64) mod bits) :: u32) = probe_pos bits h"
proof -
  have h32: "unat h < 2 ^ 32"
    using unsigned_less [of h, where ?'a = nat] by simp
  then have "unat h < 2 ^ 64" by simp
  then have up: "take_bit 64 (unat h) = unat h"
    by (simp add: take_bit_nat_eq_self)
  have "unat h mod unat bits \<le> unat h" by simp
  also note h32
  finally have small: "unat h mod unat bits < 2 ^ 32" .
  have "unat (ucast ((ucast h :: u64) mod bits) :: u32) = take_bit 32 (unat h mod unat bits)"
    by (simp add: unsigned_ucast_eq unat_mod up)
  with small show ?thesis by (simp add: probe_pos_def take_bit_nat_eq_self)
qed

lemma unat_div8: "unat ((w :: u32) div 8) = unat w div 8"
  by (simp add: unat_div)

lemma unat_mod8: "unat ((w :: u32) mod 8) = unat w mod 8"
  by (simp add: unat_mod)

lemma test_bit: "((x :: u8) AND push_bit m 1 = 0) = (\<not> bit x m)"
  by (simp add: and_exp_eq_0_iff_not_bit)

lemma set_bit_or: "m < 8 \<Longrightarrow> bit ((x :: u8) OR push_bit m 1) n = (bit x n \<or> n = m)"
  by (auto simp add: bit_simps)

lemma KeyMayMatch_probes_Suc:
  "KeyMayMatch_probes (Suc j) bits h delta array =
     (bit_on array (probe_pos bits h) \<and> KeyMayMatch_probes j bits (h + delta) delta array)"
  by (auto simp add: Let_def unat_div8 unat_mod8 unat_bitpos and_exp_eq_0_iff_not_bit bit_on_def)

lemma CreateFilter_probes_Suc:
  "bits \<noteq> 0 \<Longrightarrow> CreateFilter_probes (Suc j) bits init_size h delta dst =
     (let pos = probe_pos bits h; i = init_size + pos div 8
      in if length dst \<le> i then None
         else CreateFilter_probes j bits init_size (h + delta) delta
                (dst[i := (dst ! i) OR 2 ^ (pos mod 8)]))"
  by (simp add: Let_def unat_div8 unat_mod8 unat_bitpos)


lemma probe_pos_less: "bits \<noteq> 0 \<Longrightarrow> probe_pos bits h < unat bits"
  by (simp add: probe_pos_def unat_gt_0)

lemma KeyMayMatch_probes_mono:
  assumes "\<And>i n. bit (a ! i) n \<Longrightarrow> bit (b ! i) n"
  shows "KeyMayMatch_probes j bits h delta a \<Longrightarrow> KeyMayMatch_probes j bits h delta b"
proof (induction j arbitrary: h)
  case 0
  show ?case by simp
next
  case (Suc j)
  then show ?case
    using assms
    by (auto simp add: KeyMayMatch_probes_Suc bit_on_def simp del: KeyMayMatch_probes.simps)
qed

lemma CreateFilter_probes_ok:
  assumes "bits \<noteq> 0" and "unat bits = 8 * B" and "init + B \<le> length dst"
  shows "\<exists>dst'. CreateFilter_probes j bits init h delta dst = Some dst' \<and>
           length dst' = length dst \<and>
           (\<forall>i. i < init \<or> init + B \<le> i \<longrightarrow> dst' ! i = dst ! i) \<and>
           (\<forall>i n. bit (dst ! i) n \<longrightarrow> bit (dst' ! i) n) \<and>
           KeyMayMatch_probes j bits h delta (drop init dst')"
  using assms(3)
proof (induction j arbitrary: h dst)
  case 0
  show ?case by simp
next
  case (Suc j)
  define pos where "pos = probe_pos bits h"
  define i where "i = init + pos div 8"
  define dst1 where "dst1 = dst[i := (dst ! i) OR 2 ^ (pos mod 8)]"
  have "pos < 8 * B"
    using probe_pos_less [OF assms(1), of h] assms(2) by (simp add: pos_def)
  then have i: "init \<le> i" "i < init + B" by (simp_all add: i_def)
  with Suc.prems have il: "i < length dst" by simp
  have len1: "length dst1 = length dst" by (simp add: dst1_def)
  with Suc.prems have "init + B \<le> length dst1" by simp
  from Suc.IH [OF this, of "h + delta"] obtain dst' where
    run: "CreateFilter_probes j bits init (h + delta) delta dst1 = Some dst'"
    and len: "length dst' = length dst1"
    and frame: "\<forall>i. i < init \<or> init + B \<le> i \<longrightarrow> dst' ! i = dst1 ! i"
    and mono: "\<forall>i n. bit (dst1 ! i) n \<longrightarrow> bit (dst' ! i) n"
    and kmm: "KeyMayMatch_probes j bits (h + delta) delta (drop init dst')"
    by blast
  have step: "CreateFilter_probes (Suc j) bits init h delta dst = Some dst'"
    using il run assms(1)
    by (simp add: CreateFilter_probes_Suc Let_def pos_def [symmetric] i_def [symmetric]
        dst1_def [symmetric] del: CreateFilter_probes.simps)
  have frame1: "\<forall>x. x < init \<or> init + B \<le> x \<longrightarrow> dst1 ! x = dst ! x"
    using i by (auto simp add: dst1_def)
  have mono1: "\<forall>x n. bit (dst ! x) n \<longrightarrow> bit (dst1 ! x) n"
  proof (intro allI impI)
    fix x n assume b: "bit (dst ! x) n"
    show "bit (dst1 ! x) n"
    proof (cases "x = i")
      case True
      with il b show ?thesis by (simp add: dst1_def bit_or_iff)
    next
      case False
      with b show ?thesis by (simp add: dst1_def)
    qed
  qed
  have "bit (dst1 ! i) (pos mod 8)"
    using il by (simp add: dst1_def bit_or_iff bit_exp_iff)
  with mono have "bit (dst' ! i) (pos mod 8)" by blast
  moreover have "init \<le> length dst'"
    using len len1 Suc.prems by simp
  ultimately have "bit_on (drop init dst') pos"
    by (simp add: bit_on_def i_def)
  with kmm have "KeyMayMatch_probes (Suc j) bits h delta (drop init dst')"
    by (simp add: KeyMayMatch_probes_Suc pos_def del: KeyMayMatch_probes.simps)
  with step len len1 frame frame1 mono mono1 show ?case
    by (intro exI [of _ dst']) (simp del: CreateFilter_probes.simps KeyMayMatch_probes.simps)
qed

lemma CreateFilter_keys_ok:
  assumes "bits \<noteq> 0" and "unat bits = 8 * B" and "init + B \<le> length dst"
  shows "\<exists>dst'. CreateFilter_keys BloomHash keys k bits init dst = Some dst' \<and>
           length dst' = length dst \<and>
           (\<forall>i. i < init \<or> init + B \<le> i \<longrightarrow> dst' ! i = dst ! i) \<and>
           (\<forall>i n. bit (dst ! i) n \<longrightarrow> bit (dst' ! i) n) \<and>
           (\<forall>key \<in> set keys.
              KeyMayMatch_probes (unat k) bits (BloomHash key)
                (rotate_right_17 (BloomHash key)) (drop init dst'))"
  using assms(3)
proof (induction keys arbitrary: dst)
  case Nil
  show ?case by simp
next
  case (Cons key keys)
  from CreateFilter_probes_ok [OF assms(1,2) Cons.prems,
      of "unat k" "BloomHash key" "rotate_right_17 (BloomHash key)"]
  obtain dst1 where
    run1: "CreateFilter_probes (unat k) bits init (BloomHash key)
             (rotate_right_17 (BloomHash key)) dst = Some dst1"
    and len1: "length dst1 = length dst"
    and frame1: "\<forall>i. i < init \<or> init + B \<le> i \<longrightarrow> dst1 ! i = dst ! i"
    and mono1: "\<forall>i n. bit (dst ! i) n \<longrightarrow> bit (dst1 ! i) n"
    and kmm1: "KeyMayMatch_probes (unat k) bits (BloomHash key)
                 (rotate_right_17 (BloomHash key)) (drop init dst1)"
    by blast
  from len1 Cons.prems have "init + B \<le> length dst1" by simp
  from Cons.IH [OF this] obtain dst' where
    run: "CreateFilter_keys BloomHash keys k bits init dst1 = Some dst'"
    and len: "length dst' = length dst1"
    and frame: "\<forall>i. i < init \<or> init + B \<le> i \<longrightarrow> dst' ! i = dst1 ! i"
    and mono: "\<forall>i n. bit (dst1 ! i) n \<longrightarrow> bit (dst' ! i) n"
    and kmm: "\<forall>key \<in> set keys.
              KeyMayMatch_probes (unat k) bits (BloomHash key)
                (rotate_right_17 (BloomHash key)) (drop init dst')"
    by blast
  have init: "init \<le> length dst1" "init \<le> length dst'"
    using len len1 Cons.prems by simp_all
  have "\<And>i n. bit (drop init dst1 ! i) n \<Longrightarrow> bit (drop init dst' ! i) n"
    using mono init by simp
  from this kmm1 have "KeyMayMatch_probes (unat k) bits (BloomHash key)
                 (rotate_right_17 (BloomHash key)) (drop init dst')"
    by (rule KeyMayMatch_probes_mono)
  with kmm have all: "\<forall>key' \<in> set (key # keys).
              KeyMayMatch_probes (unat k) bits (BloomHash key')
                (rotate_right_17 (BloomHash key')) (drop init dst')"
    by simp
  have "CreateFilter_keys BloomHash (key # keys) k bits init dst = Some dst'"
    using run1 run by (simp add: Let_def)
  with len len1 frame frame1 mono mono1 all show ?case
    by (intro exI [of _ dst']) (simp del: CreateFilter_keys.simps)
qed

lemma scast_small_byte:
  assumes "(k :: u64) \<le> 30"
  shows "(scast (ucast k :: u8) :: u64) = k"
proof -
  from assms have "unat k \<le> 30" by (simp add: word_le_nat_alt)
  then have "unat k \<in> set [0..<31]" by simp
  moreover have "of_nat (unat k) = k" by simp
  ultimately have "k \<in> of_nat ` set [0..<31]"
    by (metis imageI)
  then show ?thesis
    by (auto simp add: upt_conv_Cons)
qed

lemma unat_scast_nonneg:
  assumes "0 \<le> sint (b :: u32)"
  shows "unat (scast b :: u64) = nat (sint b)"
proof -
  have "sint b < 2 ^ 31" using sint_lt [of b] by simp
  with assms have "take_bit 64 (sint b) = sint b"
    by (simp add: take_bit_int_eq_self)
  then have "uint (scast b :: u64) = sint b"
    by (simp add: scast_eq uint_word_of_int_eq del: of_int_sint)
  then show ?thesis
    by (simp only: unat_eq_nat_uint)
qed

lemma filter_size:
  assumes len: "length keys < 2 ^ 31" and b: "1 \<le> sint (b :: u32)"
  defines "bits0 \<equiv> (of_nat (length keys) :: u64) * scast b"
  defines "bits1 \<equiv> (if bits0 < 64 then 64 else bits0)"
  defines "bytes \<equiv> (bits1 + 7) div 8"
  shows "bytes * 8 \<noteq> 0" and "unat (bytes * 8) = 8 * unat bytes" and "1 \<le> unat bytes"
proof -
  have sb: "sint b < 2 ^ 31" using sint_lt [of b] by simp
  have ub: "unat (scast b :: u64) = nat (sint b)"
    using b by (intro unat_scast_nonneg) simp
  have un: "unat (of_nat (length keys) :: u64) = length keys"
    using len by (simp add: unat_of_nat take_bit_nat_eq_self)
  have "length keys * nat (sint b) < 2 ^ 31 * 2 ^ 31"
    using len sb b by (intro mult_strict_mono) simp_all
  then have prod: "length keys * nat (sint b) < 2 ^ 62" by simp
  then have "unat (of_nat (length keys) :: u64) * unat (scast b :: u64) < 2 ^ LENGTH(64)"
    by (simp add: ub un)
  then have u0: "unat bits0 = length keys * nat (sint b)"
    unfolding bits0_def by (simp add: unat_mult_lem [THEN iffD1] ub un)
  have u1: "64 \<le> unat bits1" "unat bits1 < 2 ^ 62"
    using u0 prod by (auto simp add: bits1_def word_less_nat_alt)
  then have "unat bits1 + unat (7 :: u64) < 2 ^ LENGTH(64)" by simp
  then have u7: "unat (bits1 + 7) = unat bits1 + 7"
    by (simp add: unat_add_lem [THEN iffD1])
  have ubytes: "unat bytes = (unat bits1 + 7) div 8"
    by (simp add: bytes_def unat_div u7)
  with u1 show one: "1 \<le> unat bytes" by simp
  from ubytes u1 have "unat bytes * unat (8 :: u64) < 2 ^ LENGTH(64)" by simp
  then show eight: "unat (bytes * 8) = 8 * unat bytes"
    by (simp add: unat_mult_lem [THEN iffD1])
  with one show "bytes * 8 \<noteq> 0"
    by (auto simp add: unat_eq_0 [symmetric] simp del: unat_eq_0)
qed

lemma Bloom_no_false_negatives_aux:
  assumes b: "1 \<le> sint (b :: u32)" and len: "length keys < 2 ^ 31" and key: "key \<in> set keys"
  shows "\<exists>p dst'. NewBloomFilterPolicy b = Some p \<and>
           CreateFilter BloomHash p keys dst = Some dst' \<and>
           take (length dst) dst' = dst \<and>
           KeyMayMatch BloomHash key (drop (length dst) dst')"
proof -
  from b have "0 \<le> sint b" by simp
  from NewBloomFilterPolicy_value [OF this] obtain p where
    p: "NewBloomFilterPolicy b = Some p" and bpk: "bloom_bits_per_key p = scast b"
    and kv: "uint (bloom_k p) = max 1 (min 30 \<lfloor>real_of_int (sint b) * (69 / 100)\<rfloor>)"
    by blast
  from kv have "uint (bloom_k p) \<le> 30" by simp
  then have k30: "bloom_k p \<le> 30" by (simp add: word_le_def)
  then have nk30: "\<not> 30 < bloom_k p" by simp
  define bits0 where "bits0 = (of_nat (length keys) :: u64) * scast b"
  define bits1 where "bits1 = (if bits0 < 64 then 64 else bits0)"
  define bytes where "bytes = (bits1 + 7) div 8"
  define B where "B = unat bytes"
  define init where "init = length dst"
  define dst2 where "dst2 = (dst @ replicate B 0) @ [ucast (bloom_k p) :: u8]"
  have nz: "bytes * 8 \<noteq> 0"
    unfolding bytes_def bits1_def bits0_def by (rule filter_size(1) [OF len b])
  have u8: "unat (bytes * 8) = 8 * B"
    unfolding B_def bytes_def bits1_def bits0_def by (rule filter_size(2) [OF len b])
  have B1: "1 \<le> B"
    unfolding B_def bytes_def bits1_def bits0_def by (rule filter_size(3) [OF len b])
  have cf: "CreateFilter BloomHash p keys dst =
              CreateFilter_keys BloomHash keys (bloom_k p) (bytes * 8) init dst2"
    by (simp add: CreateFilter_def Let_def bpk bytes_def bits1_def bits0_def B_def init_def
        dst2_def)
  have fits: "init + B \<le> length dst2" by (simp add: dst2_def init_def)
  from CreateFilter_keys_ok [OF nz u8 fits, of BloomHash keys "bloom_k p"] obtain dst' where
    run: "CreateFilter_keys BloomHash keys (bloom_k p) (bytes * 8) init dst2 = Some dst'"
    and len': "length dst' = length dst2"
    and frame: "\<forall>i. i < init \<or> init + B \<le> i \<longrightarrow> dst' ! i = dst2 ! i"
    and kmm: "\<forall>key \<in> set keys.
              KeyMayMatch_probes (unat (bloom_k p)) (bytes * 8) (BloomHash key)
                (rotate_right_17 (BloomHash key)) (drop init dst')"
    by blast
  have ldst': "length dst' = init + B + 1" using len' by (simp add: dst2_def init_def)
  have "take init dst' = take init dst2"
  proof (rule nth_take_lemma)
    show "init \<le> length dst'" using ldst' by simp
    show "init \<le> length dst2" using len' ldst' by simp
    show "\<And>i. i < init \<longrightarrow> dst' ! i = dst2 ! i" using frame by simp
  qed
  then have prefix: "take (length dst) dst' = dst"
    by (simp add: dst2_def init_def)
  have "dst' ! (init + B) = dst2 ! (init + B)" using frame by simp
  also have "\<dots> = ucast (bloom_k p)"
    by (simp add: dst2_def init_def nth_append)
  finally have last: "drop init dst' ! B = ucast (bloom_k p)"
    using ldst' by simp
  have flen: "length (drop init dst') = B + 1" using ldst' by simp
  have "(of_nat B :: u64) = bytes" by (simp add: B_def)
  then have "KeyMayMatch BloomHash key (drop init dst') =
          KeyMayMatch_probes (unat (bloom_k p)) (bytes * 8) (BloomHash key)
                (rotate_right_17 (BloomHash key)) (drop init dst')"
    using B1 k30 nk30 flen last
    by (simp add: KeyMayMatch_def Let_def scast_small_byte del: KeyMayMatch_probes.simps)
  with kmm key have "KeyMayMatch BloomHash key (drop (length dst) dst')"
    by (simp add: init_def)
  with p cf run prefix show ?thesis by simp
qed

text \<open>Claim C1: for every \<open>bits_per_key \<ge> 1\<close>, every list of keys (its length \<open>n\<close> an
  \<^verbatim>\<open>int\<close>) and every key of the list: \<^verbatim>\<open>CreateFilter\<close> appends a filter to \<open>dst\<close>, and
  \<^verbatim>\<open>KeyMayMatch\<close> on that filter returns true for the key.\<close>

theorem Bloom_no_false_negatives:
  "1 \<le> sint (bits_per_key :: u32) \<Longrightarrow> length keys < 2 ^ 31 \<Longrightarrow> key \<in> set keys \<Longrightarrow>
   \<exists>p dst'. NewBloomFilterPolicy bits_per_key = Some p \<and>
     CreateFilter BloomHash p keys dst = Some dst' \<and>
     take (length dst) dst' = dst \<and>
     KeyMayMatch BloomHash key (drop (length dst) dst')"
  by (rule Bloom_no_false_negatives_aux)

theorem Bloom_no_false_negatives_witness:
  "1 \<le> sint (10 :: u32) \<and> length [[1], [2 :: u8]] < 2 ^ 31 \<and> [1] \<in> set [[1], [2 :: u8]] \<and>
   (\<exists>p dst'. NewBloomFilterPolicy 10 = Some p \<and>
     CreateFilter (\<lambda>key. of_nat (length key)) p [[1], [2]] [7] = Some dst' \<and>
     take (length [7 :: u8]) dst' = [7] \<and>
     KeyMayMatch (\<lambda>key. of_nat (length key)) [1] (drop (length [7 :: u8]) dst'))"
  using Bloom_no_false_negatives [of 10 "[[1], [2]]" "[1]" "\<lambda>key. of_nat (length key)" "[7]"]
  by simp

section \<open>Write-ahead log reader: theorems\<close>

lemma ReportDrop_resyncing:
  "ReportDrop (r\<lparr>resyncing := b\<rparr>) n st = (ReportDrop r n st)\<lparr>resyncing := b\<rparr>"
  by (simp add: ReportDrop_def)

lemma ReportCorruption_resyncing:
  "ReportCorruption (r\<lparr>resyncing := b\<rparr>) n msg = (ReportCorruption r n msg)\<lparr>resyncing := b\<rparr>"
  by (simp add: ReportCorruption_def ReportDrop_resyncing)

lemma ReadPhysicalRecord_resyncing_gen:
  "r' = r\<lparr>resyncing := b\<rparr> \<Longrightarrow>
   ReadPhysicalRecord crc r' res =
     (case ReadPhysicalRecord crc r res of (t, f, r1) \<Rightarrow> (t, f, r1\<lparr>resyncing := b\<rparr>))"
proof (induction crc r res arbitrary: r' rule: ReadPhysicalRecord.induct)
  case (1 crc r res)
  note r' = "1.prems"
  show ?case
  proof (cases "length (buffer r) < kHeaderSize \<and> \<not> eof r")
    case True
    then have c1: "length (buffer r) < kHeaderSize" and c2: "\<not> eof r" by simp_all
    obtain status data f where rd: "file_Read kBlockSize (log_file r) = (status, data, f)"
      by (cases "file_Read kBlockSize (log_file r)") auto
    define r2 where "r2 = r\<lparr>log_file := f, buffer := data,
        end_of_buffer_offset := end_of_buffer_offset r + of_nat (length data)\<rparr>"
    define r2' where "r2' = r'\<lparr>log_file := f, buffer := data,
        end_of_buffer_offset := end_of_buffer_offset r' + of_nat (length data)\<rparr>"
    have eq2: "r2' = r2\<lparr>resyncing := b\<rparr>" "r2'\<lparr>eof := True\<rparr> = r2\<lparr>eof := True, resyncing := b\<rparr>"
      by (simp_all add: r2_def r2'_def r')
    show ?thesis
    proof (cases status)
      case (Some st)
      with True rd show ?thesis
        by (simp add: ReadPhysicalRecord.simps [of crc r] ReadPhysicalRecord.simps [of crc "r\<lparr>resyncing := b\<rparr>"]
            Let_def ReportDrop_def r')
    next
      case None
      show ?thesis
      proof (cases "length data < kBlockSize")
        case short: True
        have "ReadPhysicalRecord crc (r2'\<lparr>eof := True\<rparr>) res =
              (case ReadPhysicalRecord crc (r2\<lparr>eof := True\<rparr>) res of
                 (t, f, r1) \<Rightarrow> (t, f, r1\<lparr>resyncing := b\<rparr>))"
        proof -
          have "length (buffer ((r\<lparr>log_file := f, buffer := data\<rparr>)
                  \<lparr>end_of_buffer_offset :=
                     end_of_buffer_offset (r\<lparr>log_file := f, buffer := data\<rparr>)
                       + of_nat (length (buffer (r\<lparr>log_file := f, buffer := data\<rparr>)))\<rparr>))
                < kBlockSize"
            using short by simp
          from "1.IH"(1) [OF c1 c2 rd [symmetric] refl refl refl None this,
              of "r2'\<lparr>eof := True\<rparr>"]
          show ?thesis by (simp add: r2_def r2'_def r')
        qed
        with True rd None short show ?thesis
          by (simp add: ReadPhysicalRecord.simps [of crc r] ReadPhysicalRecord.simps [of crc "r\<lparr>resyncing := b\<rparr>"]
              Let_def r2_def r2'_def r')
      next
        case long: False
        have "ReadPhysicalRecord crc r2' res =
              (case ReadPhysicalRecord crc r2 res of
                 (t, f, r1) \<Rightarrow> (t, f, r1\<lparr>resyncing := b\<rparr>))"
        proof -
          have "\<not> length (buffer ((r\<lparr>log_file := f, buffer := data\<rparr>)
                  \<lparr>end_of_buffer_offset :=
                     end_of_buffer_offset (r\<lparr>log_file := f, buffer := data\<rparr>)
                       + of_nat (length (buffer (r\<lparr>log_file := f, buffer := data\<rparr>)))\<rparr>))
                < kBlockSize"
            using long by simp
          from "1.IH"(2) [OF c1 c2 rd [symmetric] refl refl refl None this, of r2']
          show ?thesis by (simp add: r2_def r2'_def r')
        qed
        with True rd None long show ?thesis
          by (simp add: ReadPhysicalRecord.simps [of crc r] ReadPhysicalRecord.simps [of crc "r\<lparr>resyncing := b\<rparr>"]
              Let_def r2_def r2'_def r')
      qed
    qed
  next
    case False
    then show ?thesis
      by (auto simp add: ReadPhysicalRecord.simps [of crc r] ReadPhysicalRecord.simps [of crc "r\<lparr>resyncing := b\<rparr>"]
            Let_def ReportCorruption_def ReportDrop_def r')
  qed
qed

lemma ReadPhysicalRecord_resyncing:
  "ReadPhysicalRecord crc (r\<lparr>resyncing := b\<rparr>) res =
     (case ReadPhysicalRecord crc r res of (t, f, r1) \<Rightarrow> (t, f, r1\<lparr>resyncing := b\<rparr>))"
  by (rule ReadPhysicalRecord_resyncing_gen) simp

lemma ReadPhysicalRecord_keeps_resyncing:
  "ReadPhysicalRecord crc r res = (t, f, r1) \<Longrightarrow> resyncing r1 = resyncing r"
proof -
  assume a: "ReadPhysicalRecord crc r res = (t, f, r1)"
  have "ReadPhysicalRecord crc (r\<lparr>resyncing := resyncing r\<rparr>) res = (t, f, r1\<lparr>resyncing := resyncing r\<rparr>)"
    by (simp only: ReadPhysicalRecord_resyncing a prod.case)
  then have "r1 = r1\<lparr>resyncing := resyncing r\<rparr>" using a by simp
  then have "resyncing r1 = resyncing (r1\<lparr>resyncing := resyncing r\<rparr>)" by (rule arg_cong)
  then show ?thesis by simp
qed



text \<open>Claim C4, amended: when the header at the front of the buffer declares a length that,
  with the 7 header bytes, exceeds the buffer, the buffer is dropped. Before end-of-file
  the result is the bad-record value, and a corruption of the dropped size reaches the
  reporter if a reporter is installed and the dropped bytes do not begin before
  \<open>initial_offset\<close>; at end-of-file the result is EOF and nothing is reported.\<close>

theorem ReadPhysicalRecord_bad_length:
  assumes "kHeaderSize \<le> length (buffer r)"
    and "length (buffer r) < kHeaderSize + unat (header_length (buffer r))"
  shows "ReadPhysicalRecord crc r res =
     (if eof r then (kEof, res, r\<lparr>buffer := []\<rparr>)
      else (kBadRecord, res,
            if reporter r \<and>
               initial_offset r \<le> end_of_buffer_offset r - of_nat (length (buffer r))
            then r\<lparr>buffer := [],
                   reported := reported r @
                     [(of_nat (length (buffer r)), Corruption ''bad record length'')]\<rparr>
            else r\<lparr>buffer := []\<rparr>))"
  using assms
  by (subst ReadPhysicalRecord.simps)
     (simp add: Let_def ReportCorruption_def ReportDrop_def)

lemma torn_block_first:
  "ReadPhysicalRecord zero_crc (Reader_new torn_block True False 32760) [] =
     (kBadRecord, [],
      \<lparr>log_file = \<lparr>contents = [0], io_error = False\<rparr>, reporter = True, reported = [],
       checksum = False, buffer = [0, 0, 0, 0, 100, 0, 1, 9, 9, 9], eof = False,
       last_record_offset = 0, end_of_buffer_offset = 32768, initial_offset = 32760,
       resyncing = True\<rparr>)"
  apply (subst ReadPhysicalRecord.simps)
  apply (simp add: Reader_new_def torn_block_def plain_record_def file_Read_def kHeaderSize_def
      kBlockSize_def Let_def)
  apply (subst ReadPhysicalRecord.simps)
  apply (simp add: kHeaderSize_def kBlockSize_def Let_def header_length_def header_type_def
      kZeroType_def kBadRecord_def kMaxRecordType_def kLastType_def nth_append)
  done

text \<open>Claim C4 as stated fails: a reader with \<open>initial_offset = 32760\<close> meets, 10 bytes
  before the end of the first full block (so before end-of-file), a header that declares
  100 bytes. It returns the bad-record value, but the dropped bytes begin before
  \<open>initial_offset\<close> and the installed reporter receives nothing.\<close>

theorem ReadPhysicalRecord_bad_length_counterexample:
  "ReadPhysicalRecord zero_crc (Reader_new torn_block True False 32760) [] =
     (kBadRecord, [], torn_state) \<and>
   kHeaderSize \<le> length (buffer torn_state) \<and>
   length (buffer torn_state) < kHeaderSize + unat (header_length (buffer torn_state)) \<and>
   \<not> eof torn_state \<and> reporter torn_state \<and>
   ReadPhysicalRecord zero_crc torn_state [] = (kBadRecord, [], torn_state\<lparr>buffer := []\<rparr>) \<and>
   reported (torn_state\<lparr>buffer := []\<rparr>) = []"
proof -
  have "ReadPhysicalRecord zero_crc (Reader_new torn_block True False 32760) [] =
     (kBadRecord, [], torn_state)"
    unfolding torn_state_def by (rule torn_block_first)
  moreover have "ReadPhysicalRecord zero_crc torn_state [] =
     (kBadRecord, [], torn_state\<lparr>buffer := []\<rparr>)"
    by (subst ReadPhysicalRecord.simps)
       (simp add: torn_state_def kHeaderSize_def header_length_def Let_def
          ReportCorruption_def ReportDrop_def)
  ultimately show ?thesis
    by (simp add: torn_state_def kHeaderSize_def header_length_def)
qed

theorem ReadPhysicalRecord_bad_length_witness:
  "kHeaderSize \<le> length (buffer (torn_state\<lparr>initial_offset := 0\<rparr>)) \<and>
   length (buffer (torn_state\<lparr>initial_offset := 0\<rparr>))
     < kHeaderSize + unat (header_length (buffer (torn_state\<lparr>initial_offset := 0\<rparr>))) \<and>
   ReadPhysicalRecord zero_crc (torn_state\<lparr>initial_offset := 0\<rparr>) [] =
     (kBadRecord, [],
      torn_state\<lparr>initial_offset := 0, buffer := [],
        reported := [(10, Corruption ''bad record length'')]\<rparr>)"
  using ReadPhysicalRecord_bad_length [of "torn_state\<lparr>initial_offset := 0\<rparr>" zero_crc "[]"]
  by (simp add: torn_state_def kHeaderSize_def header_length_def)

text \<open>Claim C5 as stated fails: with \<open>initial_offset = 32768\<close> the second block holds a
  \<open>Last\<close>, a \<open>Middle\<close> and a \<open>Full\<close> fragment. The \<open>Last\<close> fragment ends resyncing
  mode, so the \<open>Middle\<close> fragment, met before the first \<open>Full\<close> or \<open>First\<close> fragment,
  is dropped with a corruption report, not silently.\<close>

theorem ReadRecord_resyncing_counterexample:
  "ReadRecord zero_crc (Reader_new resync_log True False 32768) [] [] =
     (True, [67], [],
      \<lparr>log_file = \<lparr>contents = [], io_error = False\<rparr>, reporter = True,
       reported = [(1, Corruption ''missing start of fragmented record(1)'')],
       checksum = False, buffer = [], eof = True,
       last_record_offset = 32784, end_of_buffer_offset = 32792, initial_offset = 32768,
       resyncing = False\<rparr>)"
  by (simp add: ReadRecord_def SkipToInitialBlock_def Reader_new_def resync_log_def
      plain_record_def file_Skip_def file_Read_def kHeaderSize_def kBlockSize_def Let_def
      ReadRecord_loop.simps ReadPhysicalRecord.simps header_length_def header_type_def
      kZeroType_def kFullType_def kFirstType_def kMiddleType_def kLastType_def kEof_def
      kBadRecord_def kMaxRecordType_def ReportCorruption_def ReportDrop_def)

lemma SkipToInitialBlock_resyncing:
  "resyncing (snd (SkipToInitialBlock r)) = resyncing r"
  by (simp add: SkipToInitialBlock_def Let_def file_Skip_def split: prod.splits option.splits)

text \<open>Claim C5, amended: a reader constructed with a nonzero \<open>initial_offset\<close> starts in
  resyncing mode, and the skip to the initial block keeps it. In resyncing mode a
  \<open>Middle\<close> fragment is dropped silently and the mode stays; a \<open>Last\<close> fragment is dropped
  silently and ends the mode; every other physical record (a \<open>Full\<close> or \<open>First\<close>
  fragment, also EOF, a bad record or an unknown type) ends the mode and is processed as
  by a reader that is not resyncing.\<close>

theorem ReadRecord_resyncing:
  assumes "resyncing r" and "ReadPhysicalRecord crc r fragment0 = (t, fragment, r1)"
  shows "resyncing (Reader_new f rep cs off) = (0 < off) \<and>
    resyncing (snd (SkipToInitialBlock r)) \<and>
    resyncing r1 \<and>
    (t = kMiddleType \<longrightarrow>
       ReadRecord_loop crc r scratch in_frag pro fragment0 =
       ReadRecord_loop crc r1 scratch in_frag pro fragment) \<and>
    (t = kLastType \<longrightarrow>
       ReadRecord_loop crc r scratch in_frag pro fragment0 =
       ReadRecord_loop crc (r1\<lparr>resyncing := False\<rparr>) scratch in_frag pro fragment) \<and>
    (t \<noteq> kMiddleType \<and> t \<noteq> kLastType \<longrightarrow>
       ReadRecord_loop crc r scratch in_frag pro fragment0 =
       ReadRecord_loop crc (r\<lparr>resyncing := False\<rparr>) scratch in_frag pro fragment0)"
proof -
  have new: "resyncing (Reader_new f rep cs off) = (0 < off)"
    by (simp add: Reader_new_def)
  have skip: "resyncing (snd (SkipToInitialBlock r))"
    using assms(1) by (simp add: SkipToInitialBlock_resyncing)
  have r1: "resyncing r1"
    using ReadPhysicalRecord_keeps_resyncing [OF assms(2)] assms(1) by simp
  have ml: "kMiddleType \<noteq> kLastType"
    by (simp add: kMiddleType_def kLastType_def)
  have middle: "ReadRecord_loop crc r scratch in_frag pro fragment0 =
       ReadRecord_loop crc r1 scratch in_frag pro fragment" if "t = kMiddleType"
    using that assms(2) r1 by (subst ReadRecord_loop.simps) simp
  have last: "ReadRecord_loop crc r scratch in_frag pro fragment0 =
       ReadRecord_loop crc (r1\<lparr>resyncing := False\<rparr>) scratch in_frag pro fragment"
    if "t = kLastType"
    using that assms(2) r1 ml by (subst ReadRecord_loop.simps) simp
  have other: "ReadRecord_loop crc r scratch in_frag pro fragment0 =
       ReadRecord_loop crc (r\<lparr>resyncing := False\<rparr>) scratch in_frag pro fragment0"
    if "t \<noteq> kMiddleType \<and> t \<noteq> kLastType"
  proof -
    have "ReadPhysicalRecord crc (r\<lparr>resyncing := False\<rparr>) fragment0 =
            (t, fragment, r1\<lparr>resyncing := False\<rparr>)"
      by (simp add: ReadPhysicalRecord_resyncing assms(2))
    with that assms(2) r1 show ?thesis
      by (subst ReadRecord_loop.simps, subst (2) ReadRecord_loop.simps) (simp add: Let_def)
  qed
  from new skip r1 middle last other show ?thesis by blast
qed



lemma resync_state_read:
  "ReadPhysicalRecord zero_crc resync_state [] =
     (kMiddleType, [66], resync_state\<lparr>buffer := plain_record 1 [67]\<rparr>)"
  by (subst ReadPhysicalRecord.simps)
     (simp add: resync_state_def plain_record_def kHeaderSize_def Let_def header_length_def
        header_type_def kZeroType_def kMiddleType_def)

theorem ReadRecord_resyncing_witness:
  "resyncing resync_state \<and>
   ReadPhysicalRecord zero_crc resync_state [] =
     (kMiddleType, [66], resync_state\<lparr>buffer := plain_record 1 [67]\<rparr>) \<and>
   resyncing (Reader_new resync_log True False 32768) = ((0 :: u64) < 32768) \<and>
   resyncing (snd (SkipToInitialBlock resync_state)) \<and>
   resyncing (resync_state\<lparr>buffer := plain_record 1 [67]\<rparr>) \<and>
   ReadRecord_loop zero_crc resync_state [] False 0 [] =
     ReadRecord_loop zero_crc (resync_state\<lparr>buffer := plain_record 1 [67]\<rparr>) [] False 0 [66]"
proof -
  have r: "resyncing resync_state" by (simp add: resync_state_def)
  from ReadRecord_resyncing [OF r resync_state_read, of resync_log True False 32768 "[]" False 0]
    r resync_state_read
  show ?thesis by simp
qed

section \<open>Merging iterator: theorems\<close>

lemma key_le_refl: "comparator_ok cmp \<Longrightarrow> key_le cmp a a"
  unfolding comparator_ok_def key_le_def
  by (metis less_le_not_le linorder_le_less_linear)

lemma key_le_trans: "comparator_ok cmp \<Longrightarrow> key_le cmp a b \<Longrightarrow> key_le cmp b c \<Longrightarrow> key_le cmp a c"
  unfolding comparator_ok_def key_le_def by blast

lemma key_le_total: "comparator_ok cmp \<Longrightarrow> \<not> cmp (fst a) (fst b) < 0 \<Longrightarrow> key_le cmp b a"
  unfolding comparator_ok_def key_le_def
  by (metis less_le_not_le linorder_le_less_linear)

lemma FindSmallest_step_current [simp]:
  "FindSmallest_step (m\<lparr>current := x\<rparr>) = FindSmallest_step m"
  by (intro ext) (simp add: FindSmallest_step_def Let_def cong: option.case_cong)

lemma FindSmallest_step_cases:
  "\<not> child_Valid (children m ! i) \<Longrightarrow> FindSmallest_step m s i = s"
  "child_Valid (children m ! i) \<Longrightarrow> FindSmallest_step m None i = Some i"
  "child_Valid (children m ! i) \<Longrightarrow>
     comparator m (child_key (children m ! i)) (child_key (children m ! s')) < 0 \<Longrightarrow>
     FindSmallest_step m (Some s') i = Some i"
  "child_Valid (children m ! i) \<Longrightarrow>
     \<not> comparator m (child_key (children m ! i)) (child_key (children m ! s')) < 0 \<Longrightarrow>
     FindSmallest_step m (Some s') i = Some s'"
  by (simp_all add: FindSmallest_step_def)

lemma FindSmallest_fold_Suc:
  "foldl (FindSmallest_step m) None [0..<Suc k] =
     FindSmallest_step m (foldl (FindSmallest_step m) None [0..<k]) k"
  by simp

lemma FindSmallest_idem: "current (FindSmallest (FindSmallest m)) = current (FindSmallest m)"
  by (simp add: FindSmallest_def)

lemma FindSmallest_loop:
  assumes "comparator_ok (comparator m)" and "k \<le> length (children m)"
  shows "case foldl (FindSmallest_step m) None [0..<k] of
           None \<Rightarrow> \<forall>j<k. \<not> child_Valid (children m ! j)
         | Some i \<Rightarrow> i < k \<and> child_Valid (children m ! i) \<and>
             (\<forall>j<k. child_Valid (children m ! j) \<longrightarrow>
                key_le (comparator m) (head m i) (head m j))"
  using assms(2)
proof (induction k)
  case 0
  show ?case by simp
next
  case (Suc k)
  then have ih: "case foldl (FindSmallest_step m) None [0..<k] of
           None \<Rightarrow> \<forall>j<k. \<not> child_Valid (children m ! j)
         | Some i \<Rightarrow> i < k \<and> child_Valid (children m ! i) \<and>
             (\<forall>j<k. child_Valid (children m ! j) \<longrightarrow>
                key_le (comparator m) (head m i) (head m j))"
    by simp
  note ok = assms(1)
  show ?case
  proof (cases "child_Valid (children m ! k)")
    case False
    then have "foldl (FindSmallest_step m) None [0..<Suc k] =
        foldl (FindSmallest_step m) None [0..<k]"
      unfolding FindSmallest_fold_Suc by (rule FindSmallest_step_cases(1))
    with ih False show ?thesis
      by (auto simp add: less_Suc_eq split: option.splits)
  next
    case valid: True
    show ?thesis
    proof (cases "foldl (FindSmallest_step m) None [0..<k]")
      case None
      have "foldl (FindSmallest_step m) None [0..<Suc k] = Some k"
        using valid unfolding FindSmallest_fold_Suc None by (rule FindSmallest_step_cases(2))
      with ih None valid show ?thesis
        by (auto simp add: less_Suc_eq key_le_refl [OF ok])
    next
      case (Some s)
      with ih have s: "s < k" "child_Valid (children m ! s)"
        and smin: "\<forall>j<k. child_Valid (children m ! j) \<longrightarrow>
                key_le (comparator m) (head m s) (head m j)"
        by simp_all
      show ?thesis
      proof (cases "comparator m (child_key (children m ! k)) (child_key (children m ! s)) < 0")
        case True
        then have ks: "key_le (comparator m) (head m k) (head m s)"
          by (simp add: key_le_def head_def child_key_def)
        have "\<forall>j<Suc k. child_Valid (children m ! j) \<longrightarrow>
                key_le (comparator m) (head m k) (head m j)"
        proof (intro allI impI)
          fix j assume j: "j < Suc k" and vj: "child_Valid (children m ! j)"
          show "key_le (comparator m) (head m k) (head m j)"
          proof (cases "j = k")
            case True
            then show ?thesis by (simp add: key_le_refl [OF ok])
          next
            case False
            with j vj smin have "key_le (comparator m) (head m s) (head m j)" by simp
            with ks show ?thesis by (rule key_le_trans [OF ok])
          qed
        qed
        moreover
        have "foldl (FindSmallest_step m) None [0..<Suc k] = Some k"
          using valid True unfolding FindSmallest_fold_Suc Some
          by (rule FindSmallest_step_cases(3))
        ultimately show ?thesis using valid by simp
      next
        case False
        then have "key_le (comparator m) (head m s) (head m k)"
          using key_le_total [OF ok, of "head m k" "head m s"]
          by (simp add: head_def child_key_def)
        with smin have "\<forall>j<Suc k. child_Valid (children m ! j) \<longrightarrow>
                key_le (comparator m) (head m s) (head m j)"
          by (auto simp add: less_Suc_eq)
        moreover
        have "foldl (FindSmallest_step m) None [0..<Suc k] = Some s"
          using valid False unfolding FindSmallest_fold_Suc Some
          by (rule FindSmallest_step_cases(4))
        ultimately show ?thesis using s by simp
      qed
    qed
  qed
qed

lemma FindSmallest_None:
  assumes "comparator_ok (comparator m)" and "current (FindSmallest m) = None"
  shows "\<forall>j<length (children m). \<not> child_Valid (children m ! j)"
  using FindSmallest_loop [OF assms(1), of "length (children m)"] assms(2)
  by (simp add: FindSmallest_def)

lemma FindSmallest_Some:
  assumes "comparator_ok (comparator m)" and "current (FindSmallest m) = Some i"
  shows "i < length (children m)" and "child_Valid (children m ! i)"
    and "\<forall>j<length (children m). child_Valid (children m ! j) \<longrightarrow>
           key_le (comparator m) (head m i) (head m j)"
  using FindSmallest_loop [OF assms(1), of "length (children m)"] assms(2)
  by (simp_all add: FindSmallest_def)

lemma unvisited_FindSmallest [simp]: "unvisited (FindSmallest m) = unvisited m"
  by (simp add: unvisited_def)

lemma unvisited_member:
  assumes "y \<in> set (unvisited m)"
  obtains j k where "j < length (children m)"
    and "position (children m ! j) \<le> k" and "k < length (entries (children m ! j))"
    and "y = entries (children m ! j) ! k"
proof -
  from assms obtain c where c: "c \<in> set (children m)"
    and y: "y \<in> set (drop (position c) (entries c))"
    by (auto simp add: unvisited_def)
  from c obtain j where j: "j < length (children m)" "c = children m ! j"
    by (auto simp add: in_set_conv_nth)
  from y obtain i where i: "i < length (drop (position c) (entries c))"
    and yi: "y = drop (position c) (entries c) ! i"
    by (auto simp add: in_set_conv_nth)
  from i have "position c + i < length (entries c)" by simp
  moreover from yi i have "y = entries c ! (position c + i)" by simp
  ultimately show ?thesis
    using j that [of j "position c + i"] by simp
qed

lemma unvisited_ge_head:
  assumes ok: "comparator_ok (comparator m)"
    and cur: "current (FindSmallest m) = Some cur"
    and sorted: "\<forall>c\<in>set (children m). sorted_wrt (key_le (comparator m)) (entries c)"
    and y: "y \<in> set (unvisited m)"
  shows "key_le (comparator m) (head m cur) y"
proof -
  from y obtain j k where j: "j < length (children m)"
    and k: "position (children m ! j) \<le> k" "k < length (entries (children m ! j))"
    and yk: "y = entries (children m ! j) ! k"
    by (rule unvisited_member)
  from k have valid: "child_Valid (children m ! j)" by (simp add: child_Valid_def)
  from FindSmallest_Some(3) [OF ok cur] j valid
  have hj: "key_le (comparator m) (head m cur) (head m j)" by simp
  from sorted j have sj: "sorted_wrt (key_le (comparator m)) (entries (children m ! j))"
    by simp
  have "key_le (comparator m) (head m j) y"
  proof (cases "k = position (children m ! j)")
    case True
    with yk show ?thesis by (simp add: head_def key_le_refl [OF ok])
  next
    case False
    with k have "position (children m ! j) < k" by simp
    from sorted_wrt_nth_less [OF sj this k(2)] yk show ?thesis by (simp add: head_def)
  qed
  with hj show ?thesis by (rule key_le_trans [OF ok])
qed

lemma unvisited_advance:
  assumes cur: "cur < length (children m)" and valid: "child_Valid (children m ! cur)"
  shows "mset (unvisited (m\<lparr>children :=
           (children m)[cur := (children m ! cur)\<lparr>position := position (children m ! cur) + 1\<rparr>]\<rparr>))
         + {#head m cur#} = mset (unvisited m)"
proof -
  define cs where "cs = children m"
  define c where "c = cs ! cur"
  define c2 where "c2 = c\<lparr>position := position c + 1\<rparr>"
  define f where "f = (\<lambda>c :: ('a, 'b) ChildIter. drop (position c) (entries c))"
  from valid have p: "position c < length (entries c)"
    by (simp add: child_Valid_def c_def cs_def)
  have split: "cs = take cur cs @ c # drop (Suc cur) cs"
    using cur by (simp add: c_def cs_def id_take_nth_drop [symmetric])
  have upd: "cs[cur := c2] = take cur cs @ c2 # drop (Suc cur) cs"
    using cur by (simp add: cs_def upd_conv_take_nth_drop)
  have fc: "f c = entries c ! position c # f c2"
    using p by (simp add: f_def c2_def Cons_nth_drop_Suc)
  have "mset (concat (map f (cs[cur := c2]))) + {#entries c ! position c#}
        = mset (concat (map f (take cur cs))) + mset (f c) + mset (concat (map f (drop (Suc cur) cs)))"
    by (simp add: upd fc)
  also have "\<dots> = mset (concat (map f (take cur cs @ c # drop (Suc cur) cs)))"
    by simp
  also have "\<dots> = mset (concat (map f cs))"
    using split by simp
  finally show ?thesis
    by (simp add: unvisited_def f_def cs_def c_def c2_def head_def)
qed

lemma visit_forward:
  assumes ok: "comparator_ok (comparator m)"
    and fwd: "direction m = kForward"
    and cur: "current m = current (FindSmallest m)"
    and sorted: "\<forall>c\<in>set (children m). sorted_wrt (key_le (comparator m)) (entries c)"
  shows "\<exists>xs. visit m = Some xs \<and> mset xs = mset (unvisited m) \<and>
           sorted_wrt (key_le (comparator m)) xs"
  using assms
proof (induction m rule: visit.induct)
  case (1 m)
  note ok = "1.prems"(1) and fwd = "1.prems"(2) and cur = "1.prems"(3) and sorted = "1.prems"(4)
  show ?case
  proof (cases "current m")
    case None
    with cur have "current (FindSmallest m) = None" by simp
    from FindSmallest_None [OF ok this]
    have "\<forall>c\<in>set (children m). drop (position c) (entries c) = []"
      by (auto simp add: in_set_conv_nth child_Valid_def not_less)
    then have "unvisited m = []" by (simp add: unvisited_def)
    with None show ?thesis by (simp add: visit.simps)
  next
    case (Some i)
    with cur have fs: "current (FindSmallest m) = Some i" by simp
    note i = FindSmallest_Some [OF ok fs]
    define c' where "c' = (children m ! i)\<lparr>position := position (children m ! i) + 1\<rparr>"
    define m' where "m' = FindSmallest (m\<lparr>children := (children m)[i := c']\<rparr>)"
    have nx: "Next m = Some m'"
      using Some i(1,2) fwd by (simp add: Next_def child_Next_def c'_def m'_def)
    have ok': "comparator_ok (comparator m')" using ok by (simp add: m'_def)
    have fwd': "direction m' = kForward" using fwd by (simp add: m'_def)
    have cur': "current m' = current (FindSmallest m')"
      by (simp add: m'_def FindSmallest_idem)
    have sorted': "\<forall>c\<in>set (children m'). sorted_wrt (key_le (comparator m')) (entries c)"
    proof
      fix c assume "c \<in> set (children m')"
      then have "c \<in> set ((children m)[i := c'])" by (simp add: m'_def)
      then have "c = c' \<or> c \<in> set (children m)"
        using set_update_subset_insert [of "children m" i c'] by auto
      moreover have "entries c' = entries (children m ! i)" by (simp add: c'_def)
      moreover have "children m ! i \<in> set (children m)" using i(1) by simp
      ultimately show "sorted_wrt (key_le (comparator m')) (entries c)"
        using sorted by (auto simp add: m'_def)
    qed
    from "1.IH" [OF Some nx ok' fwd' cur' sorted'] obtain xs where
      v: "visit m' = Some xs" and ms: "mset xs = mset (unvisited m')"
      and so: "sorted_wrt (key_le (comparator m')) xs"
      by blast
    have adv: "mset (unvisited m') + {#head m i#} = mset (unvisited m)"
      using unvisited_advance [OF i(1,2)] by (simp add: m'_def c'_def)
    have vm: "visit m = Some (head m i # xs)"
      using Some nx v
      by (subst visit.simps) (simp add: head_def child_key_def child_value_def)
    have "\<forall>y\<in>set xs. key_le (comparator m) (head m i) y"
    proof
      fix y assume "y \<in> set xs"
      then have "y \<in># mset (unvisited m')" using ms by (metis set_mset_mset)
      then have "y \<in># mset (unvisited m)" using adv by (metis union_iff)
      then have "y \<in> set (unvisited m)" by simp
      with ok fs sorted show "key_le (comparator m) (head m i) y"
        by (rule unvisited_ge_head)
    qed
    with so have "sorted_wrt (key_le (comparator m)) (head m i # xs)"
      by (simp add: m'_def)
    moreover have "mset (head m i # xs) = mset (unvisited m)"
      using ms adv by simp
    ultimately show ?thesis using vm by blast
  qed
qed

lemma visit_Next_times:
  "visit m = Some xs \<Longrightarrow> \<exists>m'. Next_times (length xs) m = Some m' \<and> \<not> Valid m'"
proof (induction m arbitrary: xs rule: visit.induct)
  case (1 m)
  show ?case
  proof (cases "current m")
    case None
    with "1.prems" show ?thesis by (subst (asm) visit.simps) (simp add: Valid_def)
  next
    case (Some i)
    with "1.prems" obtain m' ys where nx: "Next m = Some m'" and v: "visit m' = Some ys"
      and xs: "xs = (child_key (children m ! i), child_value (children m ! i)) # ys"
      by (subst (asm) visit.simps) (auto split: option.splits)
    from "1.IH" [OF Some nx v] obtain m'' where
      "Next_times (length ys) m' = Some m''" "\<not> Valid m''" by blast
    with nx xs show ?thesis by simp
  qed
qed

lemma FindSmallest_step_cong:
  "children m1 = children m2 \<Longrightarrow> comparator m1 = comparator m2 \<Longrightarrow>
   FindSmallest_step m1 = FindSmallest_step m2"
  by (intro ext) (simp add: FindSmallest_step_def Let_def cong: option.case_cong)

lemma current_FindSmallest_cong:
  "children m1 = children m2 \<Longrightarrow> comparator m1 = comparator m2 \<Longrightarrow>
   current (FindSmallest m1) = current (FindSmallest m2)"
  using FindSmallest_step_cong [of m1 m2] by (simp add: FindSmallest_def)

lemma MergingIterator_sorted_merge_aux:
  assumes ok: "comparator_ok cmp"
    and sorted: "\<forall>c\<in>set cs. sorted_wrt (key_le cmp) (entries c)"
  shows "\<exists>xs m_end.
     visit (SeekToFirst (MergingIterator_new cmp cs)) = Some xs \<and>
     mset xs = (\<Sum>c\<leftarrow>cs. mset (entries c)) \<and>
     sorted_wrt (key_le cmp) xs \<and>
     Next_times (length xs) (SeekToFirst (MergingIterator_new cmp cs)) = Some m_end \<and>
     \<not> Valid m_end"
proof -
  define m where "m = SeekToFirst (MergingIterator_new cmp cs)"
  have cm: "comparator m = cmp" and ch: "children m = map child_SeekToFirst cs"
    and fwd: "direction m = kForward"
    by (simp_all add: m_def SeekToFirst_def MergingIterator_new_def)
  define m0 where "m0 = (MergingIterator_new cmp cs)\<lparr>children :=
      map child_SeekToFirst (children (MergingIterator_new cmp cs))\<rparr>"
  have m: "m = (FindSmallest m0)\<lparr>direction := kForward\<rparr>"
    by (simp add: m_def m0_def SeekToFirst_def)
  have "current (FindSmallest m) = current (FindSmallest m0)"
    by (rule current_FindSmallest_cong) (simp_all add: m)
  then have cur: "current m = current (FindSmallest m)"
    by (simp add: m)
  have so: "\<forall>c\<in>set (children m). sorted_wrt (key_le (comparator m)) (entries c)"
    using sorted by (auto simp add: cm ch child_SeekToFirst_def)
  from visit_forward [OF _ fwd cur so] ok obtain xs where
    v: "visit m = Some xs" and ms: "mset xs = mset (unvisited m)"
    and sx: "sorted_wrt (key_le cmp) xs"
    by (auto simp add: cm)
  have "unvisited m = concat (map entries cs)"
    by (simp add: unvisited_def ch child_SeekToFirst_def comp_def)
  then have "mset (unvisited m) = (\<Sum>c\<leftarrow>cs. mset (entries c))"
    by (simp add: mset_concat comp_def)
  with ms have ms': "mset xs = (\<Sum>c\<leftarrow>cs. mset (entries c))" by simp
  from visit_Next_times [OF v] obtain m_end where
    "Next_times (length xs) m = Some m_end" "\<not> Valid m_end" by blast
  with v ms' sx show ?thesis unfolding m_def by blast
qed

text \<open>Claim C3: for every comparator and all child iterators, each over a finite sequence
  sorted under the comparator, \<^verbatim>\<open>SeekToFirst\<close> followed by \<^verbatim>\<open>Next\<close> while the iterator is
  valid fails no assertion and visits a list of entries that is a permutation of the
  multiset union of the children's entries and is in non-decreasing comparator order; after
  as many calls of \<^verbatim>\<open>Next\<close> as there are entries the iterator is invalid.\<close>

theorem MergingIterator_sorted_merge:
  "comparator_ok cmp \<Longrightarrow> \<forall>c\<in>set cs. sorted_wrt (key_le cmp) (entries c) \<Longrightarrow>
   \<exists>xs m_end.
     visit (SeekToFirst (MergingIterator_new cmp cs)) = Some xs \<and>
     mset xs = (\<Sum>c\<leftarrow>cs. mset (entries c)) \<and>
     sorted_wrt (key_le cmp) xs \<and>
     Next_times (length xs) (SeekToFirst (MergingIterator_new cmp cs)) = Some m_end \<and>
     \<not> Valid m_end"
  by (rule MergingIterator_sorted_merge_aux)

lemma nat_compare_ok: "comparator_ok nat_compare"
  by (auto simp add: comparator_ok_def nat_compare_def)

theorem MergingIterator_sorted_merge_witness:
  "comparator_ok nat_compare \<and>
   list_all (\<lambda>c. sorted_wrt (key_le nat_compare) (entries c)) two_children \<and>
   (\<exists>xs m_end.
     visit (SeekToFirst (MergingIterator_new nat_compare two_children)) = Some xs \<and>
     mset xs = (\<Sum>c\<leftarrow>two_children. mset (entries c)) \<and>
     sorted_wrt (key_le nat_compare) xs \<and>
     Next_times (length xs) (SeekToFirst (MergingIterator_new nat_compare two_children))
       = Some m_end \<and>
     \<not> Valid m_end)"
proof -
  have s: "\<forall>c\<in>set two_children. sorted_wrt (key_le nat_compare) (entries c)"
    by (simp add: two_children_def key_le_def nat_compare_def)
  from MergingIterator_sorted_merge [OF nat_compare_ok s] nat_compare_ok s
  show ?thesis unfolding list_all_iff by blast
qed

lemma two_children_visit:
  "visit (SeekToFirst (MergingIterator_new nat_compare two_children)) =
     Some [(1, 10), (2, 20), (3, 30), (3, 31)]"
  by (simp add: visit.simps SeekToFirst_def MergingIterator_new_def two_children_def
      FindSmallest_def FindSmallest_step_def Next_def child_Next_def child_Valid_def
      child_key_def child_value_def child_SeekToFirst_def nat_compare_def Let_def upt_conv_Cons)

lemma EmptyIterator_apply:
  "Iterator_apply cmp x EmptyIterator = Some it \<Longrightarrow> it = EmptyIterator"
  by (cases x) simp_all

lemma EmptyIterator_run:
  "Iterator_run cmp ops EmptyIterator = Some it \<Longrightarrow> it = EmptyIterator"
proof (induction ops)
  case Nil
  then show ?case by simp
next
  case (Cons x ops)
  then show ?case
    by (auto split: option.splits dest: EmptyIterator_apply)
qed

text \<open>Claim C9: \<^verbatim>\<open>NewMergingIterator\<close> with \<open>n = 0\<close> returns the empty iterator, which
  is valid after no sequence of operations; with \<open>n = 1\<close> it returns \<open>children[0]\<close> itself;
  for \<open>n \<ge> 2\<close> it constructs a merging iterator over the \<open>n\<close> children, and a merging
  iterator is constructed only then.\<close>

theorem NewMergingIterator_cases:
  fixes cs :: "('k, 'v) ChildIter list"
  shows
  "NewMergingIterator cmp cs 0 = Some EmptyIterator \<and>
   (\<forall>ops it. Iterator_run cmp ops (EmptyIterator :: ('k, 'v) Iterator) = Some it
      \<longrightarrow> \<not> Iterator_Valid it) \<and>
   (1 \<le> length cs \<longrightarrow> NewMergingIterator cmp cs 1 = Some (Child (cs ! 0))) \<and>
   (2 \<le> n \<and> n \<le> int (length cs) \<longrightarrow>
      NewMergingIterator cmp cs n = Some (Merging (MergingIterator_new cmp (take (nat n) cs)))) \<and>
   (\<forall>m. NewMergingIterator cmp cs n = Some (Merging m) \<longrightarrow> 2 \<le> n)"
proof -
  have "\<forall>ops it. Iterator_run cmp ops (EmptyIterator :: ('k, 'v) Iterator) = Some it
      \<longrightarrow> \<not> Iterator_Valid it"
    using EmptyIterator_run [of cmp] by fastforce
  then show ?thesis
    by (auto simp add: NewMergingIterator_def split: if_splits)
qed

theorem NewMergingIterator_cases_witness:
  "NewMergingIterator nat_compare two_children 0 = Some EmptyIterator \<and>
   Iterator_run nat_compare [OpSeekToFirst, OpSeek 2, OpSeekToLast] (EmptyIterator :: (nat, nat) Iterator)
     = Some EmptyIterator \<and>
   \<not> Iterator_Valid (EmptyIterator :: (nat, nat) Iterator) \<and>
   1 \<le> length two_children \<and>
   NewMergingIterator nat_compare two_children 1 = Some (Child (two_children ! 0)) \<and>
   (2 :: int) \<le> 2 \<and> 2 \<le> int (length two_children) \<and>
   NewMergingIterator nat_compare two_children 2 =
     Some (Merging (MergingIterator_new nat_compare (take (nat 2) two_children)))"
proof -
  have l: "length two_children = 2" by (simp add: two_children_def)
  from NewMergingIterator_cases [of nat_compare two_children 2] l
  show ?thesis by simp
qed

section \<open>LRU cache: theorems\<close>

lemma w1: "(2::u32) \<le> r \<Longrightarrow> r - 1 \<noteq> 0" by unat_arith
lemma w2: "(2::u32) \<le> r \<Longrightarrow> r - 1 \<noteq> 1 \<Longrightarrow> 2 \<le> r - 1" by unat_arith
lemma unat_not_max:
  assumes "(r::u32) \<noteq> 0xFFFFFFFF"
  shows "unat r < 4294967295"
proof -
  have "unat r < 2 ^ 32" using unsigned_less [of r, where ?'a = nat] by simp
  moreover have "unat r \<noteq> 4294967295"
  proof
    assume "unat r = 4294967295"
    then have "unat r = unat (0xFFFFFFFF :: u32)" by simp
    then have "r = 0xFFFFFFFF" by (simp only: word_unat_eq_iff)
    with assms show False by simp
  qed
  ultimately show ?thesis by simp
qed

lemma unat_plus_one:
  assumes "(r::u32) \<noteq> 0xFFFFFFFF"
  shows "unat (r + 1) = unat r + 1"
proof -
  have "unat r + unat (1 :: u32) < 2 ^ LENGTH(32)"
    using unat_not_max [OF assms] by simp
  then have "unat (r + 1) = unat r + unat (1 :: u32)"
    by (simp only: unat_add_lem)
  then show ?thesis by simp
qed

lemma w3: "(r::u32) \<noteq> 0xFFFFFFFF \<Longrightarrow> r + 1 \<noteq> 0"
  using unat_plus_one [of r] by (auto simp add: word_unat_eq_iff)

lemma w4: "(2::u32) \<le> r \<Longrightarrow> r \<noteq> 0xFFFFFFFF \<Longrightarrow> 2 \<le> r + 1"
  using unat_plus_one [of r] by (simp add: word_le_nat_alt)

lemma w5: "(r::u32) \<noteq> 0 \<Longrightarrow> 0 < r" by unat_arith
lemma w6: "(2::u32) \<le> r \<Longrightarrow> r \<noteq> 1" by unat_arith
lemma w7: "(2::u32) \<le> r \<Longrightarrow> r - 1 = 1 \<Longrightarrow> r = 2" by unat_arith

lemma count_list_distinct: "distinct xs \<Longrightarrow> x \<in> set xs \<Longrightarrow> count_list xs x = 1"
  by (induction xs) auto

lemma w8: "(2::u32) \<le> r \<Longrightarrow> 0 < r"
  by (simp add: word_le_nat_alt word_less_nat_alt)

lemma cache_wf_invariant:
  assumes "cache_wf s"
  shows "cache_invariant s"
proof -
  from assms have l: "lists_ok s" and r: "refs_ok s" by (simp_all add: cache_wf_def)
  have "\<forall>a\<in>set (table s). count_list (lru s @ in_use s) a = 1"
  proof
    fix a assume "a \<in> set (table s)"
    with l have "a \<in> set (lru s @ in_use s)" by (simp add: lists_ok_def)
    moreover from l have "distinct (lru s @ in_use s)" by (auto simp add: lists_ok_def)
    ultimately show "count_list (lru s @ in_use s) a = 1"
      by (intro count_list_distinct)
  qed
  moreover have "\<forall>a\<in>dom (heap s). a \<notin> set (lru s) \<and> a \<notin> set (in_use s) \<longrightarrow> a \<notin> set (table s)"
    using l by (simp add: lists_ok_def)
  ultimately show ?thesis
    using r unfolding cache_invariant_def refs_ok_def by blast
qed

lemma FinishErase_last_ref:
  assumes "heap s e = Some h" and "h_in_cache h" and "h_refs h = 1"
    and "e \<in> set (lru s) \<or> e \<in> set (in_use s)"
  shows "FinishErase s e =
     Some (s\<lparr>lru := remove1 e (lru s), in_use := remove1 e (in_use s),
            heap := (heap s)(e := None), usage := usage s - h_charge h,
            deleted := deleted s @ [(h_key h, h_value h)]\<rparr>)"
  using assms
  by (simp add: FinishErase_def LRU_Remove_def Unref_def set_refs_def Let_def)

lemma FinishErase_still_referenced:
  assumes "heap s e = Some h" and "h_in_cache h" and "2 \<le> h_refs h"
    and "e \<in> set (lru s) \<or> e \<in> set (in_use s)"
  shows "FinishErase s e =
     Some (s\<lparr>lru := remove1 e (lru s), in_use := remove1 e (in_use s),
            heap := (heap s)(e \<mapsto> h\<lparr>h_in_cache := False, h_refs := h_refs h - 1\<rparr>),
            usage := usage s - h_charge h\<rparr>)"
proof -
  from assms(3) have "h_refs h \<noteq> 1" "0 < h_refs h" by (simp_all add: w6 w8)
  with assms show ?thesis
    by (simp add: FinishErase_def LRU_Remove_def Unref_def set_refs_def Let_def)
qed

lemma set_remove1_distinct: "distinct xs \<Longrightarrow> set (remove1 x xs) = set xs - {x}"
  by simp

lemma remove1_absent: "x \<notin> set xs \<Longrightarrow> remove1 x xs = xs"
  by (simp add: remove1_idem)

lemma FinishErase_pending:
  assumes p: "pending s e"
  shows "\<exists>s'. FinishErase s e = Some s' \<and> cache_wf s' \<and> table s' = table s \<and>
           lru s' = remove1 e (lru s) \<and> in_use s' = remove1 e (in_use s) \<and>
           next_addr s' = next_addr s \<and> capacity s' = capacity s \<and>
           (\<forall>a. a \<noteq> e \<longrightarrow> heap s' a = heap s a)"
proof -
  from p have d: "distinct (lru s)" "distinct (in_use s)" "set (lru s) \<inter> set (in_use s) = {}"
    "distinct (table s)" "e \<notin> set (table s)"
    and t: "insert e (set (table s)) = set (lru s) \<union> set (in_use s)"
    and r: "refs_ok s" and ic: "in_cache_ok s" and k: "keys_ok s"
    by (simp_all add: pending_def)
  from t have el: "e \<in> set (lru s) \<or> e \<in> set (in_use s)" by blast
  have ts: "set (table s) = (set (lru s) \<union> set (in_use s)) - {e}"
    using t d(5) by blast
  show ?thesis
  proof (cases "e \<in> set (lru s)")
    case True
    with r obtain h where h: "heap s e = Some h" "h_in_cache h" "h_refs h = 1"
      by (auto simp add: refs_ok_def)
    from True d(3) have ni: "e \<notin> set (in_use s)" by blast
    define s' where "s' = s\<lparr>lru := remove1 e (lru s), in_use := remove1 e (in_use s),
            heap := (heap s)(e := None), usage := usage s - h_charge h,
            deleted := deleted s @ [(h_key h, h_value h)]\<rparr>"
    have fe: "FinishErase s e = Some s'"
      unfolding s'_def using h el by (rule FinishErase_last_ref)
    have l': "lists_ok s'"
      using d ts ni by (auto simp add: lists_ok_def s'_def remove1_absent)
    have r': "refs_ok s'"
      using r ni d(1) by (auto simp add: refs_ok_def s'_def remove1_absent)
    have ic': "in_cache_ok s'"
      using ic ni d(1) by (auto simp add: in_cache_ok_def s'_def remove1_absent)
    have k': "keys_ok s'"
      using k d(5) unfolding keys_ok_def s'_def by (simp; blast)
    from fe l' r' ic' k' show ?thesis
      by (simp add: cache_wf_def s'_def)
  next
    case False
    with el have iu: "e \<in> set (in_use s)" by simp
    with r obtain h where h: "heap s e = Some h" "h_in_cache h" "2 \<le> h_refs h"
      by (auto simp add: refs_ok_def)
    define s' where "s' = s\<lparr>lru := remove1 e (lru s), in_use := remove1 e (in_use s),
            heap := (heap s)(e \<mapsto> h\<lparr>h_in_cache := False, h_refs := h_refs h - 1\<rparr>),
            usage := usage s - h_charge h\<rparr>"
    have fe: "FinishErase s e = Some s'"
      unfolding s'_def using h el by (rule FinishErase_still_referenced)
    have l': "lists_ok s'"
      using d ts False by (auto simp add: lists_ok_def s'_def remove1_absent)
    have r': "refs_ok s'"
      using r False d(2) h w1 [OF h(3)]
      by (auto simp add: refs_ok_def s'_def remove1_absent)
    have ic': "in_cache_ok s'"
      using ic False d(2) by (auto simp add: in_cache_ok_def s'_def remove1_absent)
    have k': "keys_ok s'"
      using k d(5) unfolding keys_ok_def s'_def by (simp; blast)
    from fe l' r' ic' k' show ?thesis
      by (simp add: cache_wf_def s'_def)
  qed
qed

lemma table_Lookup_SomeD:
  "table_Lookup s k h = Some e \<Longrightarrow> e \<in> set (table s) \<and> matches s k h e"
  by (auto simp add: table_Lookup_def find_Some_iff)

lemma table_Lookup_NoneD:
  "table_Lookup s k h = None \<Longrightarrow> \<forall>a\<in>set (table s). \<not> matches s k h a"
  by (auto simp add: table_Lookup_def find_None_iff)

lemma table_Lookup_own:
  assumes wf: "cache_wf s" and e: "e \<in> set (table s)" and h: "heap s e = Some h"
  shows "table_Lookup s (h_key h) (h_hash h) = Some e"
proof -
  from e h have "matches s (h_key h) (h_hash h) e" by (simp add: matches_def)
  with e obtain x where x: "table_Lookup s (h_key h) (h_hash h) = Some x"
    by (cases "table_Lookup s (h_key h) (h_hash h)") (auto dest: table_Lookup_NoneD)
  then have xt: "x \<in> set (table s)" and xm: "matches s (h_key h) (h_hash h) x"
    by (auto dest: table_Lookup_SomeD)
  from xm obtain hx where hx: "heap s x = Some hx" "h_key hx = h_key h" "h_hash hx = h_hash h"
    by (auto simp add: matches_def split: option.splits)
  from wf have "keys_ok s" by (simp add: cache_wf_def)
  with xt e hx h have "x = e" unfolding keys_ok_def by blast
  with x show ?thesis by simp
qed

lemma remove_pending:
  assumes wf: "cache_wf s" and e: "e \<in> set (table s)"
  shows "pending (s\<lparr>table := remove1 e (table s)\<rparr>) e"
proof -
  from wf have l: "lists_ok s" and r: "refs_ok s" and ic: "in_cache_ok s" and k: "keys_ok s"
    by (simp_all add: cache_wf_def)
  from l e have "insert e (set (remove1 e (table s))) = set (lru s) \<union> set (in_use s)"
    by (auto simp add: lists_ok_def)
  moreover from l have "distinct (remove1 e (table s))" "e \<notin> set (remove1 e (table s))"
    by (simp_all add: lists_ok_def)
  moreover have "refs_ok (s\<lparr>table := remove1 e (table s)\<rparr>)"
    using r by (simp add: refs_ok_def)
  moreover have "in_cache_ok (s\<lparr>table := remove1 e (table s)\<rparr>)"
    using ic by (simp add: in_cache_ok_def)
  moreover have "keys_ok (s\<lparr>table := remove1 e (table s)\<rparr>)"
    using k l unfolding keys_ok_def lists_ok_def by (simp; blast)
  ultimately show ?thesis
    using l by (simp add: pending_def lists_ok_def)
qed

lemma erase_wf:
  assumes wf: "cache_wf s" and e: "e \<in> set (table s)"
  shows "\<exists>s'. FinishErase (s\<lparr>table := remove1 e (table s)\<rparr>) e = Some s' \<and> cache_wf s' \<and>
           next_addr s' = next_addr s \<and> capacity s' = capacity s"
  using FinishErase_pending [OF remove_pending [OF wf e]] by auto

lemma erase_oldest_wf:
  assumes wf: "cache_wf s" and ne: "lru s \<noteq> []"
  shows "\<exists>s'. erase_oldest s = Some s' \<and> cache_wf s' \<and>
           next_addr s' = next_addr s \<and> capacity s' = capacity s"
proof -
  define old where "old = hd (lru s)"
  from ne have ol: "old \<in> set (lru s)" by (simp add: old_def)
  from wf have l: "lists_ok s" and r: "refs_ok s" by (simp_all add: cache_wf_def)
  from r ol obtain h where h: "heap s old = Some h" "h_refs h = 1"
    by (auto simp add: refs_ok_def)
  from l ol have ot: "old \<in> set (table s)" by (simp add: lists_ok_def)
  from table_Lookup_own [OF wf ot h(1)]
  have "table_Remove s (h_key h) (h_hash h) = (Some old, s\<lparr>table := remove1 old (table s)\<rparr>)"
    by (simp add: table_Remove_def)
  with h have "erase_oldest s = FinishErase (s\<lparr>table := remove1 old (table s)\<rparr>) old"
    by (simp add: erase_oldest_def old_def [symmetric])
  with erase_wf [OF wf ot] show ?thesis by simp
qed

lemma evict_wf:
  "cache_wf s \<Longrightarrow> \<exists>s'. evict s = Some s' \<and> cache_wf s' \<and> next_addr s' = next_addr s \<and>
      capacity s' = capacity s"
proof (induction s rule: evict.induct)
  case (1 s)
  show ?case
  proof (cases "usage s > capacity s \<and> lru s \<noteq> []")
    case False
    with "1.prems" show ?thesis by (subst evict.simps) auto
  next
    case True
    with erase_oldest_wf [OF "1.prems"] obtain s1 where
      s1: "erase_oldest s = Some s1" "cache_wf s1" "next_addr s1 = next_addr s"
        "capacity s1 = capacity s"
      by auto
    from "1.IH" [OF True s1(1) s1(2)] obtain s' where
      "evict s1 = Some s'" "cache_wf s'" "next_addr s' = next_addr s1" "capacity s' = capacity s1"
      by auto
    with True s1 show ?thesis by (subst evict.simps) simp
  qed
qed

lemma Prune_wf:
  "cache_wf s \<Longrightarrow> \<exists>s'. Prune s = Some s' \<and> cache_wf s'"
proof (induction s rule: Prune.induct)
  case (1 s)
  show ?case
  proof (cases "lru s \<noteq> []")
    case False
    with "1.prems" show ?thesis by (subst Prune.simps) auto
  next
    case True
    with erase_oldest_wf [OF "1.prems"] obtain s1 where
      s1: "erase_oldest s = Some s1" "cache_wf s1"
      by auto
    from "1.IH" [OF True s1(1) s1(2)] obtain s' where
      "Prune s1 = Some s'" "cache_wf s'"
      by auto
    with True s1 show ?thesis by (subst Prune.simps) simp
  qed
qed

lemma Erase_wf:
  assumes wf: "cache_wf s"
  shows "\<exists>s'. Erase s k h = Some s' \<and> cache_wf s'"
proof (cases "table_Lookup s k h")
  case None
  with wf show ?thesis by (simp add: Erase_def table_Remove_def)
next
  case (Some e)
  then have "e \<in> set (table s)" by (auto dest: table_Lookup_SomeD)
  from erase_wf [OF wf this] Some show ?thesis
    by (auto simp add: Erase_def table_Remove_def)
qed

lemma Ref_lru:
  assumes "heap s e = Some h" and "h_in_cache h" and "h_refs h = 1"
    and "e \<in> set (lru s)" and "e \<notin> set (in_use s)"
  shows "Ref s e =
     Some (s\<lparr>lru := remove1 e (lru s), in_use := in_use s @ [e],
            heap := (heap s)(e \<mapsto> h\<lparr>h_refs := 2\<rparr>)\<rparr>)"
  using assms
  by (simp add: Ref_def LRU_Remove_def LRU_Append_in_use_def set_refs_def remove1_absent)

lemma Ref_in_use:
  assumes "heap s e = Some h" and "2 \<le> h_refs h"
  shows "Ref s e = Some (s\<lparr>heap := (heap s)(e \<mapsto> h\<lparr>h_refs := h_refs h + 1\<rparr>)\<rparr>)"
  using assms w6 [OF assms(2)]
  by (simp add: Ref_def set_refs_def)

lemma Ref_wf:
  assumes wf: "cache_wf s" and e: "e \<in> set (table s)" and h: "heap s e = Some h"
    and nm: "h_refs h \<noteq> 0xFFFFFFFF"
  shows "\<exists>s'. Ref s e = Some s' \<and> cache_wf s'"
proof -
  from wf have l: "lists_ok s" and r: "refs_ok s" and ic: "in_cache_ok s" and k: "keys_ok s"
    by (simp_all add: cache_wf_def)
  from l have d: "distinct (lru s)" "distinct (in_use s)" "set (lru s) \<inter> set (in_use s) = {}"
    "distinct (table s)" and ts: "set (table s) = set (lru s) \<union> set (in_use s)"
    by (simp_all add: lists_ok_def)
  show ?thesis
  proof (cases "e \<in> set (lru s)")
    case True
    with r h have h': "h_in_cache h" "h_refs h = 1" by (auto simp add: refs_ok_def)
    from True d(3) have ni: "e \<notin> set (in_use s)" by blast
    define s' where "s' = s\<lparr>lru := remove1 e (lru s), in_use := in_use s @ [e],
            heap := (heap s)(e \<mapsto> h\<lparr>h_refs := 2\<rparr>)\<rparr>"
    have fe: "Ref s e = Some s'"
      unfolding s'_def using h h' True ni by (rule Ref_lru)
    have l': "lists_ok s'"
      using d ts ni True by (auto simp add: lists_ok_def s'_def)
    have r': "refs_ok s'"
      using r ni d(1) h h' by (auto simp add: refs_ok_def s'_def)
    have ic': "in_cache_ok s'"
      using ic ni d(1) h h' by (auto simp add: in_cache_ok_def s'_def)
    have k': "keys_ok s'"
      using k h unfolding keys_ok_def s'_def by (simp; metis)
    from fe l' r' ic' k' show ?thesis
      by (simp add: cache_wf_def)
  next
    case False
    with e ts have iu: "e \<in> set (in_use s)" by simp
    with r h have h': "h_in_cache h" "2 \<le> h_refs h" by (auto simp add: refs_ok_def)
    define s' where "s' = s\<lparr>heap := (heap s)(e \<mapsto> h\<lparr>h_refs := h_refs h + 1\<rparr>)\<rparr>"
    have fe: "Ref s e = Some s'"
      unfolding s'_def using h h'(2) by (rule Ref_in_use)
    have l': "lists_ok s'"
      using l by (simp add: lists_ok_def s'_def)
    have r': "refs_ok s'"
      using r False h h' w3 [OF nm] w4 [OF h'(2) nm]
      by (auto simp add: refs_ok_def s'_def)
    have ic': "in_cache_ok s'"
      using ic iu by (auto simp add: in_cache_ok_def s'_def)
    have k': "keys_ok s'"
      using k h unfolding keys_ok_def s'_def by (simp; metis)
    from fe l' r' ic' k' show ?thesis
      by (simp add: cache_wf_def)
  qed
qed

lemma Unref_to_lru:
  assumes "heap s e = Some h" and "h_in_cache h" and "h_refs h = 2"
    and "e \<in> set (in_use s)" and "e \<notin> set (lru s)"
  shows "Unref s e =
     Some (s\<lparr>lru := lru s @ [e], in_use := remove1 e (in_use s),
            heap := (heap s)(e \<mapsto> h\<lparr>h_refs := 1\<rparr>)\<rparr>)"
  using assms
  by (simp add: Unref_def LRU_Remove_def LRU_Append_lru_def set_refs_def remove1_absent Let_def)

lemma Unref_dec:
  assumes "heap s e = Some h" and "0 < h_refs h" and "h_refs h - 1 \<noteq> 0"
    and "h_in_cache h \<longrightarrow> h_refs h - 1 \<noteq> 1"
  shows "Unref s e = Some (s\<lparr>heap := (heap s)(e \<mapsto> h\<lparr>h_refs := h_refs h - 1\<rparr>)\<rparr>)"
  using assms
  by (auto simp add: Unref_def set_refs_def Let_def)

lemma Unref_free:
  assumes "heap s e = Some h" and "h_refs h = 1" and "\<not> h_in_cache h"
  shows "Unref s e = Some (s\<lparr>deleted := deleted s @ [(h_key h, h_value h)],
                             heap := (heap s)(e := None)\<rparr>)"
  using assms
  by (simp add: Unref_def set_refs_def Let_def)

lemma w9: "(r::u32) \<noteq> 0 \<Longrightarrow> r - 1 = 0 \<Longrightarrow> r = 1" by unat_arith

lemma Unref_wf:
  assumes wf: "cache_wf s" and h: "heap s e = Some h" and nl: "e \<notin> set (lru s)"
  shows "\<exists>s'. Unref s e = Some s' \<and> cache_wf s'"
proof -
  from wf have l: "lists_ok s" and r: "refs_ok s" and ic: "in_cache_ok s" and k: "keys_ok s"
    by (simp_all add: cache_wf_def)
  from l have d: "distinct (lru s)" "distinct (in_use s)" "set (lru s) \<inter> set (in_use s) = {}"
    "distinct (table s)" and ts: "set (table s) = set (lru s) \<union> set (in_use s)"
    by (simp_all add: lists_ok_def)
  from r h have r0: "h_refs h \<noteq> 0" by (auto simp add: refs_ok_def)
  then have pos: "0 < h_refs h" by (rule w5)
  show ?thesis
  proof (cases "e \<in> set (in_use s)")
    case True
    with r h have h': "h_in_cache h" "2 \<le> h_refs h" by (auto simp add: refs_ok_def)
    show ?thesis
    proof (cases "h_refs h - 1 = 1")
      case eq: True
      with h'(2) have two: "h_refs h = 2" by (rule w7 [rotated -1, rotated])
      define s' where "s' = s\<lparr>lru := lru s @ [e], in_use := remove1 e (in_use s),
            heap := (heap s)(e \<mapsto> h\<lparr>h_refs := 1\<rparr>)\<rparr>"
      have fe: "Unref s e = Some s'"
        unfolding s'_def using h h'(1) two True nl by (rule Unref_to_lru)
      have l': "lists_ok s'"
        using d ts nl True by (auto simp add: lists_ok_def s'_def)
      have r': "refs_ok s'"
        using r nl d(2) h h' by (auto simp add: refs_ok_def s'_def)
      have ic': "in_cache_ok s'"
        using ic nl d(2) h h' by (auto simp add: in_cache_ok_def s'_def)
      have k': "keys_ok s'"
        using k h unfolding keys_ok_def s'_def by (simp; metis)
      from fe l' r' ic' k' show ?thesis
        by (simp add: cache_wf_def)
    next
      case ne: False
      define s' where "s' = s\<lparr>heap := (heap s)(e \<mapsto> h\<lparr>h_refs := h_refs h - 1\<rparr>)\<rparr>"
      have fe: "Unref s e = Some s'"
        unfolding s'_def using h pos w1 [OF h'(2)] ne by (intro Unref_dec) simp_all
      have l': "lists_ok s'"
        using l by (simp add: lists_ok_def s'_def)
      have r': "refs_ok s'"
        using r nl h h' w1 [OF h'(2)] w2 [OF h'(2) ne]
        by (auto simp add: refs_ok_def s'_def)
      have ic': "in_cache_ok s'"
        using ic True by (auto simp add: in_cache_ok_def s'_def)
      have k': "keys_ok s'"
        using k h unfolding keys_ok_def s'_def by (simp; metis)
      from fe l' r' ic' k' show ?thesis
        by (simp add: cache_wf_def)
    qed
  next
    case False
    with ic h nl have nc: "\<not> h_in_cache h" by (auto simp add: in_cache_ok_def)
    from False nl ts have nt: "e \<notin> set (table s)" by simp
    show ?thesis
    proof (cases "h_refs h - 1 = 0")
      case True
      with r0 have one: "h_refs h = 1" by (rule w9)
      define s' where "s' = s\<lparr>deleted := deleted s @ [(h_key h, h_value h)],
                             heap := (heap s)(e := None)\<rparr>"
      have fe: "Unref s e = Some s'"
        unfolding s'_def using h one nc by (rule Unref_free)
      have l': "lists_ok s'"
        using l by (simp add: lists_ok_def s'_def)
      have r': "refs_ok s'"
        using r nl False by (auto simp add: refs_ok_def s'_def)
      have ic': "in_cache_ok s'"
        using ic by (auto simp add: in_cache_ok_def s'_def)
      have k': "keys_ok s'"
        using k nt unfolding keys_ok_def s'_def by (simp; blast)
      from fe l' r' ic' k' show ?thesis
        by (simp add: cache_wf_def)
    next
      case ne: False
      define s' where "s' = s\<lparr>heap := (heap s)(e \<mapsto> h\<lparr>h_refs := h_refs h - 1\<rparr>)\<rparr>"
      have fe: "Unref s e = Some s'"
        unfolding s'_def using h pos ne nc by (intro Unref_dec) simp_all
      have l': "lists_ok s'"
        using l by (simp add: lists_ok_def s'_def)
      have r': "refs_ok s'"
        using r nl False h ne
        by (auto simp add: refs_ok_def s'_def)
      have ic': "in_cache_ok s'"
        using ic nc h by (auto simp add: in_cache_ok_def s'_def)
      have k': "keys_ok s'"
        using k nt unfolding keys_ok_def s'_def by (simp; blast)
      from fe l' r' ic' k' show ?thesis
        by (simp add: cache_wf_def)
    qed
  qed
qed

lemma set_replace:
  "old \<in> set xs \<Longrightarrow>
   set (map (\<lambda>x. if x = old then e else x) xs) = insert e (set xs - {old})"
  by (induction xs) auto

lemma distinct_replace:
  "distinct xs \<Longrightarrow> e \<notin> set xs \<Longrightarrow> distinct (map (\<lambda>x. if x = old then e else x) xs)"
  by (induction xs) auto

lemma fresh_addr:
  assumes wf: "cache_wf s"
  shows "heap s (next_addr s) = None" "next_addr s \<notin> set (lru s)"
    "next_addr s \<notin> set (in_use s)" "next_addr s \<notin> set (table s)"
proof -
  from wf have l: "lists_ok s" and r: "refs_ok s" by (simp_all add: cache_wf_def)
  from r show n: "heap s (next_addr s) = None"
    by (cases "heap s (next_addr s)") (auto simp add: refs_ok_def)
  from r n show a: "next_addr s \<notin> set (lru s)" by (auto simp add: refs_ok_def)
  from r n show b: "next_addr s \<notin> set (in_use s)" by (auto simp add: refs_ok_def)
  from l a b show "next_addr s \<notin> set (table s)" by (simp add: lists_ok_def)
qed

lemma Insert_uncached_wf:
  assumes wf: "cache_wf s"
  shows "cache_wf (s\<lparr>next_addr := Suc (next_addr s),
      heap := (heap s)(next_addr s \<mapsto>
        \<lparr>h_value = v, h_charge = c, h_key = k, h_in_cache = False, h_refs = 1,
         h_hash = hash\<rparr>)\<rparr>)"
proof -
  from wf have l: "lists_ok s" and r: "refs_ok s" and ic: "in_cache_ok s" and ko: "keys_ok s"
    by (simp_all add: cache_wf_def)
  note f = fresh_addr [OF wf]
  have "lists_ok (s\<lparr>next_addr := Suc (next_addr s),
      heap := (heap s)(next_addr s \<mapsto>
        \<lparr>h_value = v, h_charge = c, h_key = k, h_in_cache = False, h_refs = 1,
         h_hash = hash\<rparr>)\<rparr>)"
    using l by (simp add: lists_ok_def)
  moreover have "refs_ok (s\<lparr>next_addr := Suc (next_addr s),
      heap := (heap s)(next_addr s \<mapsto>
        \<lparr>h_value = v, h_charge = c, h_key = k, h_in_cache = False, h_refs = 1,
         h_hash = hash\<rparr>)\<rparr>)"
    using r f by (auto simp add: refs_ok_def less_Suc_eq)
  moreover have "in_cache_ok (s\<lparr>next_addr := Suc (next_addr s),
      heap := (heap s)(next_addr s \<mapsto>
        \<lparr>h_value = v, h_charge = c, h_key = k, h_in_cache = False, h_refs = 1,
         h_hash = hash\<rparr>)\<rparr>)"
    using ic by (auto simp add: in_cache_ok_def)
  moreover have "keys_ok (s\<lparr>next_addr := Suc (next_addr s),
      heap := (heap s)(next_addr s \<mapsto>
        \<lparr>h_value = v, h_charge = c, h_key = k, h_in_cache = False, h_refs = 1,
         h_hash = hash\<rparr>)\<rparr>)"
    using ko f(4) unfolding keys_ok_def by (simp; metis)
  ultimately show ?thesis by (simp add: cache_wf_def)
qed

lemma table_linked [simp]: "table (linked s k hash v c) = table s"
  by (simp add: linked_def)

lemma linked_matches:
  assumes "a \<noteq> next_addr s"
  shows "matches (linked s k hash v c) k' hash' a = matches s k' hash' a"
  using assms by (simp add: matches_def linked_def)

lemma linked_Lookup:
  assumes wf: "cache_wf s"
  shows "table_Lookup (linked s k hash v c) k' hash' = table_Lookup s k' hash'"
proof -
  have "\<forall>a\<in>set (table s). a \<noteq> next_addr s" using fresh_addr(4) [OF wf] by blast
  then have "find (matches (linked s k hash v c) k' hash') (table s) =
      find (matches s k' hash') (table s)"
    by (intro find_cong) (simp_all add: linked_matches)
  then show ?thesis by (simp add: table_Lookup_def linked_def)
qed

lemma Insert_new_wf:
  assumes wf: "cache_wf s" and no: "table_Lookup s k hash = None"
  shows "cache_wf ((linked s k hash v c)\<lparr>table := table s @ [next_addr s]\<rparr>)"
proof -
  from wf have l: "lists_ok s" and r: "refs_ok s" and ic: "in_cache_ok s" and ko: "keys_ok s"
    by (simp_all add: cache_wf_def)
  note f = fresh_addr [OF wf]
  from no have nm: "\<forall>a\<in>set (table s). \<not> matches s k hash a" by (rule table_Lookup_NoneD)
  have "lists_ok ((linked s k hash v c)\<lparr>table := table s @ [next_addr s]\<rparr>)"
    using l f by (auto simp add: lists_ok_def linked_def)
  moreover have "refs_ok ((linked s k hash v c)\<lparr>table := table s @ [next_addr s]\<rparr>)"
    using r f by (auto simp add: refs_ok_def less_Suc_eq linked_def)
  moreover have "in_cache_ok ((linked s k hash v c)\<lparr>table := table s @ [next_addr s]\<rparr>)"
    using ic by (auto simp add: in_cache_ok_def linked_def)
  moreover have "keys_ok ((linked s k hash v c)\<lparr>table := table s @ [next_addr s]\<rparr>)"
    unfolding keys_ok_def
  proof (intro ballI allI impI)
    fix a b ha hb
    let ?s = "(linked s k hash v c)\<lparr>table := table s @ [next_addr s]\<rparr>"
    assume a: "a \<in> set (table ?s)" and b: "b \<in> set (table ?s)"
      and ha: "heap ?s a = Some ha" and hb: "heap ?s b = Some hb"
      and kk: "h_key ha = h_key hb" and hh: "h_hash ha = h_hash hb"
    have new: "x = next_addr s \<Longrightarrow> heap ?s x = Some hx \<Longrightarrow> h_key hx = k \<and> h_hash hx = hash"
      for x hx by (auto simp add: linked_def)
    have old: "x \<noteq> next_addr s \<Longrightarrow> heap ?s x = heap s x" for x
      by (simp add: linked_def)
    have tab: "x \<in> set (table ?s) \<Longrightarrow> x \<noteq> next_addr s \<Longrightarrow> x \<in> set (table s)" for x
      by (simp add: linked_def)
    show "a = b"
    proof (cases "a = next_addr s")
      case True
      show ?thesis
      proof (cases "b = next_addr s")
        case True with \<open>a = next_addr s\<close> show ?thesis by simp
      next
        case False
        from new [OF True ha] kk hh have "h_key hb = k" "h_hash hb = hash" by simp_all
        moreover from old [OF False] hb have "heap s b = Some hb" by simp
        ultimately have "matches s k hash b" by (simp add: matches_def)
        with nm tab [OF b False] show ?thesis by blast
      qed
    next
      case False
      show ?thesis
      proof (cases "b = next_addr s")
        case True
        from new [OF True hb] kk hh have "h_key ha = k" "h_hash ha = hash" by simp_all
        moreover from old [OF False] ha have "heap s a = Some ha" by simp
        ultimately have "matches s k hash a" by (simp add: matches_def)
        with nm tab [OF a False] show ?thesis by blast
      next
        case bf: False
        from old [OF False] ha have "heap s a = Some ha" by simp
        moreover from old [OF bf] hb have "heap s b = Some hb" by simp
        ultimately show ?thesis
          using ko tab [OF a False] tab [OF b bf] kk hh unfolding keys_ok_def by blast
      qed
    qed
  qed
  ultimately show ?thesis by (simp add: cache_wf_def)
qed

lemma Insert_replace_pending:
  assumes wf: "cache_wf s" and so: "table_Lookup s k hash = Some old"
  shows "pending ((linked s k hash v c)
      \<lparr>table := map (\<lambda>x. if x = old then next_addr s else x) (table s)\<rparr>) old"
proof -
  let ?s = "(linked s k hash v c)
      \<lparr>table := map (\<lambda>x. if x = old then next_addr s else x) (table s)\<rparr>"
  from wf have l: "lists_ok s" and r: "refs_ok s" and ic: "in_cache_ok s" and ko: "keys_ok s"
    by (simp_all add: cache_wf_def)
  note f = fresh_addr [OF wf]
  from so have ot: "old \<in> set (table s)" and om: "matches s k hash old"
    by (auto dest: table_Lookup_SomeD)
  from ot f(4) have oe: "old \<noteq> next_addr s" by blast
  from l have d: "distinct (lru s)" "distinct (in_use s)" "set (lru s) \<inter> set (in_use s) = {}"
    "distinct (table s)" and ts: "set (table s) = set (lru s) \<union> set (in_use s)"
    by (simp_all add: lists_ok_def)
  have st: "set (table ?s) = insert (next_addr s) (set (table s) - {old})"
    using set_replace [OF ot] by (simp add: linked_def)
  have dt: "distinct (table ?s)"
    using distinct_replace [OF d(4) f(4)] by (simp add: linked_def)
  have lists: "distinct (lru ?s)" "distinct (in_use ?s)" "set (lru ?s) \<inter> set (in_use ?s) = {}"
    using d f by (auto simp add: linked_def)
  have notin: "old \<notin> set (table ?s)" using st oe by simp
  have ins: "insert old (set (table ?s)) = set (lru ?s) \<union> set (in_use ?s)"
    using st ot ts by (auto simp add: linked_def)
  have r': "refs_ok ?s"
    using r f by (auto simp add: refs_ok_def less_Suc_eq linked_def)
  have ic': "in_cache_ok ?s"
    using ic by (auto simp add: in_cache_ok_def linked_def)
  have k': "keys_ok ?s"
    unfolding keys_ok_def
  proof (intro ballI allI impI)
    fix a b ha hb
    assume a: "a \<in> set (table ?s)" and b: "b \<in> set (table ?s)"
      and ha: "heap ?s a = Some ha" and hb: "heap ?s b = Some hb"
      and kk: "h_key ha = h_key hb" and hh: "h_hash ha = h_hash hb"
    have new: "x = next_addr s \<Longrightarrow> heap ?s x = Some hx \<Longrightarrow> h_key hx = k \<and> h_hash hx = hash"
      for x hx by (auto simp add: linked_def)
    have old: "x \<noteq> next_addr s \<Longrightarrow> heap ?s x = heap s x" for x
      by (simp add: linked_def)
    have tab: "x \<in> set (table ?s) \<Longrightarrow> x \<noteq> next_addr s \<Longrightarrow> x \<in> set (table s) \<and> x \<noteq> old"
      for x using st by auto
    from om obtain ho where ho: "heap s old = Some ho" "h_key ho = k" "h_hash ho = hash"
      by (auto simp add: matches_def split: option.splits)
    have clash: False if x: "x \<in> set (table ?s)" "x \<noteq> next_addr s"
      and hx: "heap ?s x = Some hx" "h_key hx = k" "h_hash hx = hash" for x hx
    proof -
      from tab [OF x] have xt: "x \<in> set (table s)" and xo: "x \<noteq> old" by simp_all
      from old [OF x(2)] hx(1) have "heap s x = Some hx" by simp
      with ko xt ot ho hx(2,3) have "x = old" unfolding keys_ok_def by blast
      with xo show False by simp
    qed
    show "a = b"
    proof (cases "a = next_addr s")
      case True
      show ?thesis
      proof (cases "b = next_addr s")
        case True with \<open>a = next_addr s\<close> show ?thesis by simp
      next
        case False
        from new [OF True ha] kk hh have "h_key hb = k" "h_hash hb = hash" by simp_all
        with clash [OF b False hb] show ?thesis by simp
      qed
    next
      case False
      show ?thesis
      proof (cases "b = next_addr s")
        case True
        from new [OF True hb] kk hh have "h_key ha = k" "h_hash ha = hash" by simp_all
        with clash [OF a False ha] show ?thesis by simp
      next
        case bf: False
        from old [OF False] ha have "heap s a = Some ha" by simp
        moreover from old [OF bf] hb have "heap s b = Some hb" by simp
        ultimately show ?thesis
          using ko tab [OF a False] tab [OF b bf] kk hh unfolding keys_ok_def by blast
      qed
    qed
  qed
  from lists dt notin ins r' ic' k' show ?thesis by (simp add: pending_def)
qed

lemma Insert_wf:
  assumes wf: "cache_wf s"
  shows "\<exists>s'. Insert s k hash v c True = Some (next_addr s, s') \<and> cache_wf s'"
proof (cases "capacity s > 0")
  case False
  from evict_wf [OF Insert_uncached_wf [OF wf, of v c k hash]] False
  show ?thesis by (auto simp add: Insert_def Let_def)
next
  case True
  have lk: "linked s k hash v c =
      (let e = next_addr s;
          h = \<lparr>h_value = v, h_charge = c, h_key = k, h_in_cache = False, h_refs = 1,
               h_hash = hash\<rparr>;
          s1 = s\<lparr>next_addr := Suc e, heap := (heap s)(e \<mapsto> h)\<rparr>;
          h2 = h\<lparr>h_refs := h_refs h + 1, h_in_cache := True\<rparr>;
          s2 = s1\<lparr>heap := (heap s1)(e \<mapsto> h2)\<rparr>;
          s3 = LRU_Append_in_use s2 e
       in s3\<lparr>usage := usage s3 + c\<rparr>)"
    by (simp add: linked_def Let_def LRU_Append_in_use_def)
  have ti: "table_Insert (linked s k hash v c) (next_addr s)
       \<lparr>h_value = v, h_charge = c, h_key = k, h_in_cache = True, h_refs = 2, h_hash = hash\<rparr> =
     (case table_Lookup s k hash of
        None \<Rightarrow> (None, (linked s k hash v c)\<lparr>table := table s @ [next_addr s]\<rparr>)
      | Some old \<Rightarrow> (Some old, (linked s k hash v c)
          \<lparr>table := map (\<lambda>x. if x = old then next_addr s else x) (table s)\<rparr>))"
    by (simp add: table_Insert_def linked_Lookup [OF wf] split: option.split)
  have "\<exists>s6. (case table_Insert (linked s k hash v c) (next_addr s)
       \<lparr>h_value = v, h_charge = c, h_key = k, h_in_cache = True, h_refs = 2, h_hash = hash\<rparr> of
          (None, s5) \<Rightarrow> Some s5
        | (Some old, s5) \<Rightarrow> FinishErase s5 old) = Some s6 \<and> cache_wf s6"
  proof (cases "table_Lookup s k hash")
    case None
    with Insert_new_wf [OF wf None, of v c] ti show ?thesis by simp
  next
    case (Some old)
    with FinishErase_pending [OF Insert_replace_pending [OF wf Some, of v c]] ti
    show ?thesis by auto
  qed
  then obtain s6 where s6: "(case table_Insert (linked s k hash v c) (next_addr s)
       \<lparr>h_value = v, h_charge = c, h_key = k, h_in_cache = True, h_refs = 2, h_hash = hash\<rparr> of
          (None, s5) \<Rightarrow> Some s5
        | (Some old, s5) \<Rightarrow> FinishErase s5 old) = Some s6" and wf6: "cache_wf s6"
    by blast
  from evict_wf [OF wf6] obtain s7 where s7: "evict s6 = Some s7" "cache_wf s7" by blast
  have "Insert s k hash v c True = Some (next_addr s, s7)"
    using True s6 s7(1) lk
    by (simp add: Insert_def Let_def LRU_Append_in_use_def linked_def)
  with s7(2) show ?thesis by simp
qed

lemma LRUCache_new_wf: "cache_wf (LRUCache_new c)"
  by (simp add: cache_wf_def lists_ok_def refs_ok_def in_cache_ok_def keys_ok_def
      LRUCache_new_def)

lemma Lookup_wf:
  assumes wf: "cache_wf s" and al: "op_allowed s (OpLookup k h)"
  shows "\<exists>s'. cache_step (OpLookup k h) s = Some s' \<and> cache_wf s'"
proof (cases "table_Lookup s k h")
  case None
  with wf show ?thesis by (simp add: Lookup_def)
next
  case (Some e)
  then have et: "e \<in> set (table s)" by (auto dest: table_Lookup_SomeD)
  from wf have "lists_ok s" "refs_ok s" by (simp_all add: cache_wf_def)
  with et obtain he where hd: "heap s e = Some he"
    unfolding lists_ok_def refs_ok_def by (metis Un_iff)
  with al Some have "h_refs he \<noteq> 0xFFFFFFFF" by simp
  from Ref_wf [OF wf et hd this] Some show ?thesis by (auto simp add: Lookup_def)
qed

lemma cache_step_wf:
  assumes wf: "cache_wf s" and al: "op_allowed s x"
  shows "\<exists>s'. cache_step x s = Some s' \<and> cache_wf s'"
proof (cases x)
  case (OpInsert k h v c mem)
  with al have "mem" by simp
  with OpInsert Insert_wf [OF wf, of k h v c] show ?thesis by auto
next
  case (OpLookup k h)
  with Lookup_wf [OF wf] al show ?thesis by simp
next
  case (OpRelease a)
  with al obtain ha where "heap s a = Some ha" "a \<notin> set (lru s)" by auto
  from Unref_wf [OF wf this] OpRelease show ?thesis by (simp add: Release_def)
next
  case (OpErase k h)
  with Erase_wf [OF wf, of k h] show ?thesis by simp
next
  case OpPrune
  with Prune_wf [OF wf] show ?thesis by simp
qed

lemma cache_run_wf:
  "cache_wf s \<Longrightarrow> allowed_run ops s \<Longrightarrow> \<exists>s'. cache_run ops s = Some s' \<and> cache_wf s'"
proof (induction ops arbitrary: s)
  case Nil
  then show ?case by simp
next
  case (Cons x xs)
  from Cons.prems have al: "op_allowed s x" by simp
  from cache_step_wf [OF Cons.prems(1) al] obtain s1 where
    s1: "cache_step x s = Some s1" "cache_wf s1" by blast
  with Cons.prems have "allowed_run xs s1" by simp
  from Cons.IH [OF s1(2) this] s1(1) show ?case by simp
qed

lemma allowed_run_take: "allowed_run ops s \<Longrightarrow> allowed_run (take n ops) s"
proof (induction ops arbitrary: s n)
  case Nil
  then show ?case by simp
next
  case (Cons x xs)
  show ?case
  proof (cases n)
    case 0
    then show ?thesis by simp
  next
    case (Suc m)
    with Cons show ?thesis by (auto split: option.splits)
  qed
qed

lemma cache_run_invariant:
  assumes "allowed_run ops (LRUCache_new c)"
  shows "\<exists>s. cache_run (take n ops) (LRUCache_new c) = Some s \<and> cache_invariant s"
  using cache_run_wf [OF LRUCache_new_wf allowed_run_take [OF assms]]
  by (blast intro: cache_wf_invariant)

lemma Lookup_one_entry:
  assumes "r \<noteq> 1"
  shows "cache_step (OpLookup [1] 1) (one_entry r) = Some (one_entry (r + 1))"
  using assms
  by (simp add: Lookup_def table_Lookup_def matches_def one_entry_def Ref_def set_refs_def)

lemma Lookups_one_entry:
  "2 \<le> unat r \<Longrightarrow> unat r + n \<le> 4294967296 \<Longrightarrow>
   cache_run (replicate n (OpLookup [1] 1)) (one_entry r) = Some (one_entry (r + of_nat n))"
proof (induction n arbitrary: r)
  case 0
  then show ?case by simp
next
  case (Suc n)
  from Suc.prems have r1: "r \<noteq> 1" by auto
  note step = Lookup_one_entry [OF r1]
  show ?case
  proof (cases n)
    case 0
    with step show ?thesis by (simp del: cache_step.simps)
  next
    case (Suc m)
    with Suc.prems have "unat r \<noteq> 4294967295" by simp
    then have "r \<noteq> 0xFFFFFFFF" by auto
    then have u: "unat (r + 1) = unat r + 1" by (rule unat_plus_one)
    with Suc.prems have "2 \<le> unat (r + 1)" "unat (r + 1) + n \<le> 4294967296" by simp_all
    from Suc.IH [OF this] step show ?thesis
      by (simp add: add.assoc del: cache_step.simps)
  qed
qed

lemma Insert_one_entry:
  "cache_step (OpInsert [1] 1 10 1 True) (LRUCache_new 1) = Some (one_entry 2)"
  by (simp add: Insert_def Let_def LRUCache_new_def LRU_Append_in_use_def table_Insert_def
      table_Lookup_def evict.simps one_entry_def)

lemma one_entry_overflow:
  "cache_run (OpInsert [1] 1 10 1 True # replicate 4294967294 (OpLookup [1] 1)) (LRUCache_new 1) =
     Some (one_entry 0)"
proof -
  have a: "cache_run (replicate 4294967294 (OpLookup [1] 1)) (one_entry 2) =
      Some (one_entry (2 + of_nat 4294967294))"
    by (rule Lookups_one_entry) simp_all
  have b: "(2 :: u32) + of_nat 4294967294 = 0" by simp
  show ?thesis
    by (simp only: cache_run.simps Insert_one_entry option.case a b)
qed

lemma one_entry_0_invariant: "\<not> cache_invariant (one_entry 0)"
  by (simp add: cache_invariant_def one_entry_def)

lemmas cache_defs =
  Insert_def Lookup_def Release_def Erase_def Let_def LRUCache_new_def LRU_Append_in_use_def
  LRU_Append_lru_def LRU_Remove_def table_Insert_def table_Lookup_def table_Remove_def
  matches_def Ref_def Unref_def set_refs_def FinishErase_def erase_oldest_def evict.simps
  Prune.simps

lemma sample_ops_allowed: "allowed_run sample_ops (LRUCache_new 1)"
  by (simp add: sample_ops_def cache_defs)

lemma sample_ops_run:
  "map_option (\<lambda>s. (usage s, lru s, in_use s, table s, deleted s))
     (cache_run sample_ops (LRUCache_new 1)) =
   Some (0, [], [], [], [([1], 10), ([2], 20)])"
  by (simp add: sample_ops_def cache_defs)

lemma double_Release:
  "cache_run [OpInsert [1] 1 10 1 True, OpRelease 0, OpRelease 0] (LRUCache_new 1) = None"
  by (simp add: cache_defs)

text \<open>Claim C6 as stated fails: the reference count is a \<^verbatim>\<open>uint32_t\<close> that \<^verbatim>\<open>Ref\<close>
  increments without a check. After one \<^verbatim>\<open>Insert\<close> and 4294967294 calls of \<^verbatim>\<open>Lookup\<close>
  for the same key, none of them released, the count of the entry is 0 while the entry
  is on the \<open>in_use\<close> list and in the table. And a handle released twice takes the
  cache's own reference away: the second \<^verbatim>\<open>Release\<close> brings the count of an entry of
  the \<open>lru\<close> list to 0, where \<^verbatim>\<open>assert(!e->in_cache)\<close> fails.\<close>

theorem LRUCache_invariant_counterexample:
  "cache_run (OpInsert [1] 1 10 1 True # replicate 4294967294 (OpLookup [1] 1)) (LRUCache_new 1) =
     Some (one_entry 0) \<and>
   in_use (one_entry 0) = [0] \<and>
   map_option h_refs (heap (one_entry 0) 0) = Some 0 \<and>
   \<not> cache_invariant (one_entry 0) \<and>
   cache_run [OpInsert [1] 1 10 1 True, OpRelease 0, OpRelease 0] (LRUCache_new 1 :: nat LRUCache)
     = None"
  using one_entry_overflow one_entry_0_invariant double_Release by (simp add: one_entry_def)

text \<open>Claim C6, amended: from a new shard, every sequence of \<^verbatim>\<open>Insert\<close>, \<^verbatim>\<open>Lookup\<close>,
  \<^verbatim>\<open>Release\<close>, \<^verbatim>\<open>Erase\<close> and \<^verbatim>\<open>Prune\<close> in which every \<^verbatim>\<open>Release\<close> is given a handle
  that is allocated and still held by a client, no \<^verbatim>\<open>Lookup\<close> finds an entry whose
  reference count is \<open>2\<^sup>3\<^sup>2 - 1\<close>, and every \<^verbatim>\<open>Insert\<close> gets the memory it asks for,
  runs without a failed assertion, and after each
  operation (after every prefix of the sequence) every entry of the table is on exactly
  one of the two lists, the entries of the \<open>lru\<close> list have reference count 1, those of
  the \<open>in_use\<close> list at least 2, and a handle on neither list is not in the table.\<close>

theorem LRUCache_invariant:
  "allowed_run ops (LRUCache_new c) \<Longrightarrow>
   \<exists>s. cache_run (take n ops) (LRUCache_new c) = Some s \<and> cache_invariant s"
  by (rule cache_run_invariant)

theorem LRUCache_invariant_witness:
  "allowed_run sample_ops (LRUCache_new 1) \<and>
   (\<exists>s. cache_run (take 8 sample_ops) (LRUCache_new 1) = Some s \<and> cache_invariant s) \<and>
   (\<exists>s. cache_run (take 4 sample_ops) (LRUCache_new 1) = Some s \<and> cache_invariant s)"
  using LRUCache_invariant [of sample_ops 1 8] LRUCache_invariant [of sample_ops 1 4]
    sample_ops_allowed
  by simp

section \<open>Table cache: theorems\<close>

lemma Lookup_miss:
  assumes "map_option fst (Lookup s k h) = Some None"
  shows "Lookup s k h = Some (None, s)"
  using assms by (auto simp add: Lookup_def split: option.splits)

lemma Cache_Lookup_miss:
  assumes "map_option fst (Cache_Lookup H c k) = Some None"
  shows "Cache_Lookup H c k = Some (None, c)"
proof -
  from assms have "map_option fst (Lookup (shard c (Shard (H k))) k (H k)) = Some None"
    by (auto simp add: Cache_Lookup_def Let_def split: option.splits)
  then have "Lookup (shard c (Shard (H k))) k (H k) = Some (None, shard c (Shard (H k)))"
    by (rule Lookup_miss)
  then show ?thesis by (simp add: Cache_Lookup_def Let_def)
qed

lemma FindTable_miss:
  assumes pos: "0 < n"
    and miss: "map_option fst (Cache_Lookup H (cache tc) (EncodeFixed64 n)) = Some None"
  shows "FindTable env Table_Open H mem tc n sz =
     (let (s1, file1) = NewRandomAccessFile env (MakeFileName (dbname tc) n ''ldb'');
          (opened, s, file) =
             (if \<not> Status_ok s1 then
                let (s2, file2) = NewRandomAccessFile env (MakeFileName (dbname tc) n ''sst'')
                in ([MakeFileName (dbname tc) n ''ldb'', MakeFileName (dbname tc) n ''sst''],
                    if Status_ok s2 then kOk else s1, file2)
              else ([MakeFileName (dbname tc) n ''ldb''], s1, file1));
          (s', tbl) = (if Status_ok s then Table_Open file sz else (s, None))
      in if \<not> Status_ok s' then
           (if tbl \<noteq> None then (opened, None) else (opened, Some (s', None, tc)))
         else
           (case Cache_Insert H (cache tc) (EncodeFixed64 n) \<lparr>tf_file = file, tf_table = tbl\<rparr> 1 mem of
              None \<Rightarrow> (opened, None)
            | Some (h, c2) \<Rightarrow> (opened, Some (s', Some h, tc\<lparr>cache := c2\<rparr>))))"
  using pos
  by (simp add: FindTable_def Cache_Lookup_miss [OF miss] TableFileName_def SSTTableFileName_def
      Let_def split: prod.splits)

lemma decimal_digit: "n < 10 \<Longrightarrow> decimal n = [char_of (48 + n)]"
  by (simp add: decimal.simps)

lemma zeros_5: "replicate 5 c = [c, c, c, c, c]"
  by (simp add: eval_nat_numeral)

lemma digit_chars: "char_of (51 :: nat) = CHR ''3''" "char_of (55 :: nat) = CHR ''7''"
  by (simp_all add: char_of_def bit_0)

lemmas table_cache_defs =
  FindTable_def Cache_Lookup_def Cache_Insert_def TableFileName_def SSTTableFileName_def
  MakeFileName_def printf_06llu_def EncodeFixed64_def TableCache_new_def NewLRUCache_def
  kNumShards_def kNumShardBits_def Shard_def sample_hash_def only_file_def no_files_def
  good_table_def bad_table_def Status_ok_def decimal_digit zeros_5 digit_chars

lemma warm_cache_found:
  "FindTable (only_file ''db/000003.ldb'') good_table sample_hash True (TableCache_new ''db'' 16) 3 100
     = ([''db/000003.ldb''], Some (kOk, Some (0, 0), warm_cache))"
  by (simp add: warm_cache_def table_cache_defs cache_defs)

lemma warm_cache_hit:
  "map_option fst (Cache_Lookup sample_hash (cache warm_cache) (EncodeFixed64 3)) = Some (Some (0, 0))"
  by (simp add: warm_cache_def table_cache_defs cache_defs)

lemma warm_cache_dbname: "dbname warm_cache = ''db''"
  by (simp add: warm_cache_def table_cache_defs cache_defs)

lemma warm_cache_miss:
  "map_option fst (Cache_Lookup sample_hash (cache warm_cache) (EncodeFixed64 7)) = Some None"
  by (simp add: warm_cache_def table_cache_defs cache_defs)

lemma warm_cache_names:
  "TableFileName (dbname warm_cache) 7 = Some ''db/000007.ldb''"
  "SSTTableFileName (dbname warm_cache) 7 = Some ''db/000007.sst''"
  by (simp_all add: warm_cache_dbname table_cache_defs)

lemma FindTable_error_aux:
  fixes env :: "'f Env" and Table_Open :: "'f option \<Rightarrow> u64 \<Rightarrow> StatusCode \<times> 't option"
    and tc :: "('f, 't) TableCache"
  assumes ldb: "TableFileName (dbname tc) n = Some ldb"
    and sst: "SSTTableFileName (dbname tc) n = Some sst"
    and miss: "map_option fst (Cache_Lookup H (cache tc) (EncodeFixed64 n)) = Some None"
    and o1: "NewRandomAccessFile env ldb = (s1, f1)"
    and o2: "NewRandomAccessFile env sst = (s2, f2)"
  shows "(\<not> Status_ok s1 \<and> \<not> Status_ok s2 \<longrightarrow>
            FindTable env Table_Open H mem tc n sz = ([ldb, sst], Some (s1, None, tc))) \<and>
         (Status_ok s1 \<and> Table_Open f1 sz = (st, None) \<and> \<not> Status_ok st \<longrightarrow>
            FindTable env Table_Open H mem tc n sz = ([ldb], Some (st, None, tc))) \<and>
         (\<not> Status_ok s1 \<and> Status_ok s2 \<and> Table_Open f2 sz = (st, None) \<and> \<not> Status_ok st \<longrightarrow>
            FindTable env Table_Open H mem tc n sz = ([ldb, sst], Some (st, None, tc))) \<and>
         (\<forall>(env2 :: 'f Env) (Table_Open2 :: 'f option \<Rightarrow> u64 \<Rightarrow> StatusCode \<times> 't option) mem2.
            take 1 (fst (FindTable env2 Table_Open2 H mem2 tc n sz)) = [ldb]) \<and>
         (\<forall>(env2 :: 'f Env) (Table_Open2 :: 'f option \<Rightarrow> u64 \<Rightarrow> StatusCode \<times> 't option) f t.
            cache_wf (shard (cache tc) (Shard (H (EncodeFixed64 n)))) \<and>
            NewRandomAccessFile env2 ldb = (kOk, f) \<and> Table_Open2 f sz = (kOk, t) \<longrightarrow>
            (\<exists>h c2. FindTable env2 Table_Open2 H True tc n sz =
                      ([ldb], Some (kOk, Some h, tc\<lparr>cache := c2\<rparr>))))"
proof -
  from ldb have pos: "0 < n" and l: "ldb = MakeFileName (dbname tc) n ''ldb''"
    by (auto simp add: TableFileName_def split: if_splits)
  from sst have s: "sst = MakeFileName (dbname tc) n ''sst''"
    by (auto simp add: SSTTableFileName_def split: if_splits)
  note ft = FindTable_miss [OF pos miss]
  have a: "\<not> Status_ok s1 \<and> \<not> Status_ok s2 \<longrightarrow>
            FindTable env Table_Open H mem tc n sz = ([ldb, sst], Some (s1, None, tc))"
    using o1 o2 by (simp add: ft l [symmetric] s [symmetric])
  have b: "Status_ok s1 \<and> Table_Open f1 sz = (st, None) \<and> \<not> Status_ok st \<longrightarrow>
            FindTable env Table_Open H mem tc n sz = ([ldb], Some (st, None, tc))"
    using o1 o2 by (simp add: ft l [symmetric] s [symmetric])
  have c: "\<not> Status_ok s1 \<and> Status_ok s2 \<and> Table_Open f2 sz = (st, None) \<and> \<not> Status_ok st \<longrightarrow>
            FindTable env Table_Open H mem tc n sz = ([ldb, sst], Some (st, None, tc))"
    using o1 o2 by (simp add: ft l [symmetric] s [symmetric] Status_ok_def)
  have d: "take 1 (fst (FindTable env2 Table_Open2 H mem2 tc n sz)) = [ldb]"
    for env2 :: "'f Env" and Table_Open2 :: "'f option \<Rightarrow> u64 \<Rightarrow> StatusCode \<times> 't option"
      and mem2
  proof -
    obtain a1 g1 where r1: "NewRandomAccessFile env2 ldb = (a1, g1)"
      by (cases "NewRandomAccessFile env2 ldb")
    obtain a2 g2 where r2: "NewRandomAccessFile env2 sst = (a2, g2)"
      by (cases "NewRandomAccessFile env2 sst")
    obtain b1 u1 where r3: "Table_Open2 g1 sz = (b1, u1)"
      by (cases "Table_Open2 g1 sz")
    obtain b2 u2 where r4: "Table_Open2 g2 sz = (b2, u2)"
      by (cases "Table_Open2 g2 sz")
    show ?thesis
      using r1 r2 r3 r4
      by (cases "Status_ok a1"; cases "Status_ok a2"; cases "Status_ok b1"; cases "Status_ok b2")
        (simp_all add: FindTable_miss [OF pos miss] l [symmetric] s [symmetric] Status_ok_def
          split: option.splits)
  qed
  have e: "\<exists>h c2. FindTable env2 Table_Open2 H True tc n sz =
                      ([ldb], Some (kOk, Some h, tc\<lparr>cache := c2\<rparr>))"
    if wf: "cache_wf (shard (cache tc) (Shard (H (EncodeFixed64 n))))"
      and o: "NewRandomAccessFile env2 ldb = (kOk, f)" and t: "Table_Open2 f sz = (kOk, t)"
    for env2 :: "'f Env" and Table_Open2 :: "'f option \<Rightarrow> u64 \<Rightarrow> StatusCode \<times> 't option"
      and f t
  proof -
    from Insert_wf [OF wf, of "EncodeFixed64 n" "H (EncodeFixed64 n)"
        "\<lparr>tf_file = f, tf_table = t\<rparr>" 1]
    obtain h c2 where "Cache_Insert H (cache tc) (EncodeFixed64 n) \<lparr>tf_file = f, tf_table = t\<rparr> 1
        True = Some (h, c2)"
      by (auto simp add: Cache_Insert_def Let_def)
    with o t show ?thesis
      by (intro exI [of _ h] exI [of _ c2])
        (simp add: FindTable_miss [OF pos miss] l [symmetric] Status_ok_def)
  qed
  from a b c d e show ?thesis by blast
qed

lemma warm_cache_wf:
  "cache_wf (shard (cache warm_cache) (Shard (sample_hash (EncodeFixed64 7))))"
  by (simp add: warm_cache_def table_cache_defs cache_defs cache_wf_def lists_ok_def
      refs_ok_def in_cache_ok_def keys_ok_def)

lemma sample_opens:
  "NewRandomAccessFile no_files name = (kIOError, None)"
  "NewRandomAccessFile (only_file ''db/000007.ldb'') ''db/000007.ldb'' = (kOk, Some 1)"
  "NewRandomAccessFile (only_file ''db/000007.ldb'') ''db/000007.sst'' = (kNotFound, None)"
  "NewRandomAccessFile (only_file ''db/000007.sst'') ''db/000007.ldb'' = (kNotFound, None)"
  "NewRandomAccessFile (only_file ''db/000007.sst'') ''db/000007.sst'' = (kOk, Some 1)"
  by (simp_all add: no_files_def only_file_def)

text \<open>Claim C10: let the cache have no entry for the file number, and let \<open>ldb\<close> and
  \<open>sst\<close> be the two names of the table file. If \<^verbatim>\<open>NewRandomAccessFile\<close> fails for both
  names, \<^verbatim>\<open>FindTable\<close> returns the status of the first attempt, which is not OK; if a
  file is opened under either name and \<^verbatim>\<open>Table::Open\<close> fails, it returns the status of
  \<^verbatim>\<open>Table::Open\<close>. In each case \<^verbatim>\<open>*handle\<close> is null and the table cache is as before the
  call. Hence a later call for the same file number, in any environment, opens the
  \<open>ldb\<close> name again; and if then the file opens and parses, the shard is well formed
  and memory is available, the call returns OK with a handle.\<close>

theorem FindTable_error_not_cached:
  fixes env :: "'f Env" and Table_Open :: "'f option \<Rightarrow> u64 \<Rightarrow> StatusCode \<times> 't option"
    and tc :: "('f, 't) TableCache"
  assumes "TableFileName (dbname tc) n = Some ldb"
    and "SSTTableFileName (dbname tc) n = Some sst"
    and "map_option fst (Cache_Lookup H (cache tc) (EncodeFixed64 n)) = Some None"
    and "NewRandomAccessFile env ldb = (s1, f1)"
    and "NewRandomAccessFile env sst = (s2, f2)"
  shows "(\<not> Status_ok s1 \<and> \<not> Status_ok s2 \<longrightarrow>
            FindTable env Table_Open H mem tc n sz = ([ldb, sst], Some (s1, None, tc))) \<and>
         (Status_ok s1 \<and> Table_Open f1 sz = (st, None) \<and> \<not> Status_ok st \<longrightarrow>
            FindTable env Table_Open H mem tc n sz = ([ldb], Some (st, None, tc))) \<and>
         (\<not> Status_ok s1 \<and> Status_ok s2 \<and> Table_Open f2 sz = (st, None) \<and> \<not> Status_ok st \<longrightarrow>
            FindTable env Table_Open H mem tc n sz = ([ldb, sst], Some (st, None, tc))) \<and>
         (\<forall>(env2 :: 'f Env) (Table_Open2 :: 'f option \<Rightarrow> u64 \<Rightarrow> StatusCode \<times> 't option) mem2.
            take 1 (fst (FindTable env2 Table_Open2 H mem2 tc n sz)) = [ldb]) \<and>
         (\<forall>(env2 :: 'f Env) (Table_Open2 :: 'f option \<Rightarrow> u64 \<Rightarrow> StatusCode \<times> 't option) f t.
            cache_wf (shard (cache tc) (Shard (H (EncodeFixed64 n)))) \<and>
            NewRandomAccessFile env2 ldb = (kOk, f) \<and> Table_Open2 f sz = (kOk, t) \<longrightarrow>
            (\<exists>h c2. FindTable env2 Table_Open2 H True tc n sz =
                      ([ldb], Some (kOk, Some h, tc\<lparr>cache := c2\<rparr>))))"
  using assms by (rule FindTable_error_aux)

theorem FindTable_error_not_cached_witness:
  "TableFileName (dbname warm_cache) 7 = Some ''db/000007.ldb'' \<and>
   SSTTableFileName (dbname warm_cache) 7 = Some ''db/000007.sst'' \<and>
   map_option fst (Cache_Lookup sample_hash (cache warm_cache) (EncodeFixed64 7)) = Some None \<and>
   FindTable no_files good_table sample_hash True warm_cache 7 100 =
     ([''db/000007.ldb'', ''db/000007.sst''], Some (kIOError, None, warm_cache)) \<and>
   FindTable (only_file ''db/000007.ldb'') bad_table sample_hash True warm_cache 7 100 =
     ([''db/000007.ldb''], Some (kCorruption, None, warm_cache)) \<and>
   FindTable (only_file ''db/000007.sst'') bad_table sample_hash True warm_cache 7 100 =
     ([''db/000007.ldb'', ''db/000007.sst''], Some (kCorruption, None, warm_cache)) \<and>
   take 1 (fst (FindTable (only_file ''db/000007.ldb'') good_table sample_hash True warm_cache 7 100)) =
     [''db/000007.ldb''] \<and>
   (\<exists>h c2. FindTable (only_file ''db/000007.ldb'') good_table sample_hash True warm_cache 7 100 =
      ([''db/000007.ldb''], Some (kOk, Some h, warm_cache\<lparr>cache := c2\<rparr>)))"
proof -
  note n = warm_cache_names warm_cache_miss
  note t1 = FindTable_error_not_cached [OF n sample_opens(1) sample_opens(1),
      where Table_Open = good_table and sz = 100 and st = kCorruption and mem = True]
  note t2 = FindTable_error_not_cached [OF n sample_opens(2) sample_opens(3),
      where Table_Open = bad_table and sz = 100 and st = kCorruption and mem = True]
  note t3 = FindTable_error_not_cached [OF n sample_opens(4) sample_opens(5),
      where Table_Open = bad_table and sz = 100 and st = kCorruption and mem = True]
  from t1 have a: "FindTable no_files good_table sample_hash True warm_cache 7 100 =
     ([''db/000007.ldb'', ''db/000007.sst''], Some (kIOError, None, warm_cache))"
    by (simp add: Status_ok_def)
  from t2 have b: "FindTable (only_file ''db/000007.ldb'') bad_table sample_hash True warm_cache 7 100 =
     ([''db/000007.ldb''], Some (kCorruption, None, warm_cache))"
    by (simp add: Status_ok_def bad_table_def)
  from t3 have c: "FindTable (only_file ''db/000007.sst'') bad_table sample_hash True warm_cache 7 100 =
     ([''db/000007.ldb'', ''db/000007.sst''], Some (kCorruption, None, warm_cache))"
    by (simp add: Status_ok_def bad_table_def)
  from t1 have d: "take 1 (fst (FindTable (only_file ''db/000007.ldb'') good_table sample_hash
      True warm_cache 7 100)) = [''db/000007.ldb'']"
    by blast
  from t1 have "cache_wf (shard (cache warm_cache) (Shard (sample_hash (EncodeFixed64 7)))) \<and>
      NewRandomAccessFile (only_file ''db/000007.ldb'') ''db/000007.ldb'' = (kOk, Some 1) \<and>
      good_table (Some 1) 100 = (kOk, Some 5) \<longrightarrow>
      (\<exists>h c2. FindTable (only_file ''db/000007.ldb'') good_table sample_hash True warm_cache 7 100 =
         ([''db/000007.ldb''], Some (kOk, Some h, warm_cache\<lparr>cache := c2\<rparr>)))"
    by blast
  with warm_cache_wf sample_opens(2) have e:
    "\<exists>h c2. FindTable (only_file ''db/000007.ldb'') good_table sample_hash True warm_cache 7 100 =
         ([''db/000007.ldb''], Some (kOk, Some h, warm_cache\<lparr>cache := c2\<rparr>))"
    by (simp add: good_table_def)
  from n a b c d e show ?thesis by simp
qed

end
